theory Spec2Isabelle
  imports Main
begin

section \<open>JavaScript values as used by the data store\<close>

text \<open>
  The store of \<^verbatim>\<open>src/src/data-store.js\<close> wraps JSON-like trees. A value is a
  primitive leaf or a composite node (a plain object or an array) holding its own
  enumerable properties in enumeration order. Property names are strings: a numeric key
  such as \<^verbatim>\<open>0\<close> is the string \<^verbatim>\<open>"0"\<close>, as JavaScript's property access converts it.

  Limits of the data model, chosen with the specification's scope (JSON-like trees):
  numbers are integers (no \<^verbatim>\<open>NaN\<close>, no fractions) and trees hold no functions. The
  list of a node is in insertion order. JavaScript lists the names that are array indices
  first, in ascending order: \<open>ownKeys\<close> below gives that order, and \<^verbatim>\<open>keys()\<close> uses it; a
  \<^verbatim>\<open>for ... in\<close> loop of the model follows the list, which gives the same properties,
  in the same order under \<open>ownKeys\<close>, whenever the loop runs to its end. An array is its
  elements and its other properties: a missing
  index is a hole, but the \<^verbatim>\<open>length\<close> of an array is not part of the model, so holes
  after the last element are not represented.
\<close>

datatype prim = PUndefined | PNull | PBool bool | PNum int | PStr string

datatype kind = KObject | KArray

datatype jsval = Prim prim | Node kind "(string \<times> jsval) list"

datatype jstype = TUndefined | TObject | TBoolean | TNumber | TString

text \<open>
  Exceptions. \<open>TypeError\<close> is the error of the language itself (the class body is
  strict-mode code). \<open>BackendError\<close> is whatever the backend throws. \<open>OutsideModel\<close>
  marks a step that leaves the modelled fragment (a built-in member of a prototype is
  read or replaced); the model then makes no statement about the real outcome.
\<close>

datatype error = TypeError | OutsideModel | BackendError string

subsection \<open>Decimal numerals, as the template literal prints them\<close>

definition digitChars :: string where
  "digitChars = ''0123456789''"

fun showNat :: "nat \<Rightarrow> string" where
  "showNat n = (if n < 10 then [digitChars ! n]
                else showNat (n div 10) @ [digitChars ! (n mod 10)])"

declare showNat.simps [simp del]

definition digitVal :: "char \<Rightarrow> nat" where
  "digitVal c = (if c \<in> set digitChars then length (takeWhile (\<lambda>d. d \<noteq> c) digitChars) else 10)"

definition readNat :: "string \<Rightarrow> nat" where
  "readNat s = foldl (\<lambda>a c. 10 * a + digitVal c) 0 s"

text \<open>An array index is a canonical numeral below \<open>2^32 - 1\<close>.\<close>

definition isArrayIndex :: "string \<Rightarrow> bool" where
  "isArrayIndex k = (k \<noteq> [] \<and> list_all (\<lambda>c. c \<in> set digitChars) k
                      \<and> showNat (readNat k) = k \<and> readNat k < 4294967295)"

text \<open>
  The order of \<^verbatim>\<open>Object.getOwnPropertyNames\<close>: the names that are array indices in
  ascending order, then the other names in insertion order.
\<close>

definition indexKeys :: "string list \<Rightarrow> string list" where
  "indexKeys ns = sort_key readNat (filter isArrayIndex ns)"

definition ownKeys :: "string list \<Rightarrow> string list" where
  "ownKeys ns = indexKeys ns @ filter (\<lambda>k. \<not> isArrayIndex k) ns"

subsection \<open>Operators on values\<close>

text \<open>\<^verbatim>\<open>typeof x\<close>\<close>

fun typeOf :: "jsval \<Rightarrow> jstype" where
  "typeOf (Prim PUndefined) = TUndefined"
| "typeOf (Prim PNull) = TObject"
| "typeOf (Prim (PBool b)) = TBoolean"
| "typeOf (Prim (PNum n)) = TNumber"
| "typeOf (Prim (PStr s)) = TString"
| "typeOf (Node k ps) = TObject"

text \<open>\<^verbatim>\<open>x instanceof Object\<close>, \<^verbatim>\<open>x instanceof Array\<close>, \<^verbatim>\<open>Array.isArray(x)\<close> and \<^verbatim>\<open>!x\<close>\<close>

fun instanceOfObject :: "jsval \<Rightarrow> bool" where
  "instanceOfObject (Node k ps) = True"
| "instanceOfObject (Prim p) = False"

fun isArray :: "jsval \<Rightarrow> bool" where
  "isArray (Node KArray ps) = True"
| "isArray v = False"

fun falsy :: "jsval \<Rightarrow> bool" where
  "falsy (Prim PUndefined) = True"
| "falsy (Prim PNull) = True"
| "falsy (Prim (PBool b)) = (\<not> b)"
| "falsy (Prim (PNum n)) = (n = 0)"
| "falsy (Prim (PStr s)) = (s = [])"
| "falsy (Node k ps) = False"

text \<open>
  The names every object inherits from \<^verbatim>\<open>Object.prototype\<close>, and the names an array
  sees besides its elements: its own non-enumerable \<^verbatim>\<open>length\<close> and the members of
  \<^verbatim>\<open>Array.prototype\<close> (ECMAScript 2015).
\<close>

definition objectPrototype :: "string list" where
  "objectPrototype = [''constructor'', ''__defineGetter__'', ''__defineSetter__'',
     ''hasOwnProperty'', ''__lookupGetter__'', ''__lookupSetter__'', ''isPrototypeOf'',
     ''propertyIsEnumerable'', ''toString'', ''valueOf'', ''__proto__'', ''toLocaleString'']"

definition arrayPrototype :: "string list" where
  "arrayPrototype = [''length'', ''concat'', ''copyWithin'', ''fill'', ''find'',
     ''findIndex'', ''lastIndexOf'', ''pop'', ''push'', ''reverse'', ''shift'', ''unshift'',
     ''slice'', ''sort'', ''splice'', ''includes'', ''indexOf'', ''join'', ''keys'',
     ''entries'', ''values'', ''forEach'', ''filter'', ''map'', ''every'', ''some'',
     ''reduce'', ''reduceRight'']"

fun inherited :: "kind \<Rightarrow> string list" where
  "inherited KObject = objectPrototype"
| "inherited KArray = arrayPrototype @ objectPrototype"

text \<open>The names a primitive number or boolean finds on its wrapper's prototype chain.\<close>

definition numberPrototype :: "string list" where
  "numberPrototype = [''toExponential'', ''toFixed'', ''toPrecision''] @ objectPrototype"

definition booleanPrototype :: "string list" where
  "booleanPrototype = objectPrototype"

text \<open>The characters of a primitive string, as the properties \<^verbatim>\<open>"0"\<close>, \<^verbatim>\<open>"1"\<close>, ...\<close>

definition stringEntries :: "string \<Rightarrow> (string \<times> jsval) list" where
  "stringEntries s = map (\<lambda>i. (showNat i, Prim (PStr [s ! i]))) [0..<length s]"

text \<open>
  \<^verbatim>\<open>for (const key in x)\<close> together with the value \<^verbatim>\<open>x[key]\<close> of each key: the own
  enumerable properties. The loop body never runs for \<^verbatim>\<open>undefined\<close>, \<^verbatim>\<open>null\<close>, a number
  or a boolean.
\<close>

fun entries :: "jsval \<Rightarrow> (string \<times> jsval) list" where
  "entries (Node k ps) = ps"
| "entries (Prim (PStr s)) = stringEntries s"
| "entries (Prim p) = []"

definition forInKeys :: "jsval \<Rightarrow> string list" where
  "forInKeys x = map fst (entries x)"

text \<open>\<^verbatim>\<open>Object.keys(x).length\<close>\<close>

fun objectKeysLength :: "jsval \<Rightarrow> error + nat" where
  "objectKeysLength (Prim PUndefined) = Inl TypeError"
| "objectKeysLength (Prim PNull) = Inl TypeError"
| "objectKeysLength x = Inr (length (entries x))"

text \<open>\<^verbatim>\<open>key in x\<close>: own or inherited; a \<^verbatim>\<open>TypeError\<close> when \<open>x\<close> is not an object.\<close>

fun hasProperty :: "jsval \<Rightarrow> string \<Rightarrow> error + bool" where
  "hasProperty (Node k ps) key = Inr (key \<in> set (map fst ps) \<or> key \<in> set (inherited k))"
| "hasProperty (Prim p) key = Inl TypeError"

text \<open>
  \<^verbatim>\<open>x[key]\<close> as a read. An own property gives its value, a name found on the prototype
  chain gives a built-in (outside the model), any other name gives \<^verbatim>\<open>undefined\<close>.
  Reading from \<^verbatim>\<open>undefined\<close> or \<^verbatim>\<open>null\<close> throws. Of a primitive string only the
  characters are modelled.
\<close>

fun getProp :: "jsval \<Rightarrow> string \<Rightarrow> error + jsval" where
  "getProp (Node k ps) key =
     (case map_of ps key of
        Some v \<Rightarrow> Inr v
      | None \<Rightarrow> if key \<in> set (inherited k) then Inl OutsideModel else Inr (Prim PUndefined))"
| "getProp (Prim PUndefined) key = Inl TypeError"
| "getProp (Prim PNull) key = Inl TypeError"
| "getProp (Prim (PStr s)) key =
     (case map_of (stringEntries s) key of Some v \<Rightarrow> Inr v | None \<Rightarrow> Inl OutsideModel)"
| "getProp (Prim (PNum n)) key =
     (if key \<in> set numberPrototype then Inl OutsideModel else Inr (Prim PUndefined))"
| "getProp (Prim (PBool b)) key =
     (if key \<in> set booleanPrototype then Inl OutsideModel else Inr (Prim PUndefined))"

text \<open>Replacing the value of a name where it stands, or appending a new name.\<close>

fun upd :: "(string \<times> jsval) list \<Rightarrow> string \<Rightarrow> jsval \<Rightarrow> (string \<times> jsval) list" where
  "upd [] key v = [(key, v)]"
| "upd ((k, x) # ps) key v = (if k = key then (k, v) # ps else (k, x) # upd ps key v)"

text \<open>
  \<^verbatim>\<open>x[key] = v\<close> in strict mode. Assigning to a primitive throws. Assigning
  \<^verbatim>\<open>__proto__\<close> of an object or \<^verbatim>\<open>length\<close> of an array does not create a property and
  is outside the model.
\<close>

fun putProp :: "jsval \<Rightarrow> string \<Rightarrow> jsval \<Rightarrow> error + jsval" where
  "putProp (Node k ps) key v =
     (if key = ''__proto__'' \<or> (k = KArray \<and> key = ''length'') then Inl OutsideModel
      else Inr (Node k (upd ps key v)))"
| "putProp (Prim p) key v = Inl TypeError"

text \<open>
  \<^verbatim>\<open>delete x[key]\<close> in strict mode: removes an own property; deleting what is not there
  succeeds; deleting the \<^verbatim>\<open>length\<close> of an array or a character of a string throws.
\<close>

fun delProp :: "jsval \<Rightarrow> string \<Rightarrow> error + jsval" where
  "delProp (Node k ps) key =
     (if k = KArray \<and> key = ''length'' then Inl TypeError
      else Inr (Node k (filter (\<lambda>(k', x). k' \<noteq> key) ps)))"
| "delProp (Prim PUndefined) key = Inl TypeError"
| "delProp (Prim PNull) key = Inl TypeError"
| "delProp (Prim (PStr s)) key =
     (if key = ''length'' \<or> key \<in> set (map fst (stringEntries s)) then Inl TypeError
      else Inr (Prim (PStr s)))"
| "delProp (Prim p) key = Inr (Prim p)"


section \<open>The folds of the store on a pair of nodes\<close>

text \<open>
  A loop that builds a fresh value stops at the first exception (\<open>foldE\<close>). A loop that
  mutates a node keeps what it has written when an exception stops it (\<open>forEach\<close>): the
  result is the node as the loop left it, and the exception if one was thrown.
\<close>

fun foldE :: "('a \<Rightarrow> 's \<Rightarrow> error + 's) \<Rightarrow> 'a list \<Rightarrow> 's \<Rightarrow> error + 's" where
  "foldE f [] s = Inr s"
| "foldE f (x # xs) s = (case f x s of Inl e \<Rightarrow> Inl e | Inr s' \<Rightarrow> foldE f xs s')"

fun forEach :: "'a list \<Rightarrow> ('a \<Rightarrow> 's \<Rightarrow> 's \<times> error option) \<Rightarrow> 's \<Rightarrow> 's \<times> error option" where
  "forEach [] f s = (s, None)"
| "forEach (x # xs) f s =
     (case f x s of (s', None) \<Rightarrow> forEach xs f s' | (s', Some e) \<Rightarrow> (s', Some e))"

text \<open>A loop that returns \<^verbatim>\<open>true\<close> from inside its body, or falls through to \<^verbatim>\<open>false\<close>.\<close>

fun anyE :: "('a \<Rightarrow> error + bool) \<Rightarrow> 'a list \<Rightarrow> error + bool" where
  "anyE f [] = Inr False"
| "anyE f (x # xs) =
     (case f x of Inl e \<Rightarrow> Inl e | Inr b \<Rightarrow> if b then Inr True else anyE f xs)"

lemma foldE_cong [fundef_cong]:
  "xs = ys \<Longrightarrow> s = t \<Longrightarrow> (\<And>x a. x \<in> set ys \<Longrightarrow> f x a = g x a)
   \<Longrightarrow> foldE f xs s = foldE g ys t"
proof (induction ys arbitrary: xs s t)
  case Nil
  then show ?case by simp
next
  case (Cons y ys)
  then show ?case by (auto split: sum.splits)
qed

lemma forEach_cong [fundef_cong]:
  "xs = ys \<Longrightarrow> s = t \<Longrightarrow> (\<And>x a. x \<in> set ys \<Longrightarrow> f x a = g x a)
   \<Longrightarrow> forEach xs f s = forEach ys g t"
proof (induction ys arbitrary: xs s t)
  case Nil
  then show ?case by simp
next
  case (Cons y ys)
  then show ?case by (auto split: prod.splits option.splits)
qed

lemma anyE_cong [fundef_cong]:
  "xs = ys \<Longrightarrow> (\<And>x. x \<in> set ys \<Longrightarrow> f x = g x) \<Longrightarrow> anyE f xs = anyE g ys"
proof (induction ys arbitrary: xs)
  case Nil
  then show ?case by simp
next
  case (Cons y ys)
  then show ?case by (auto split: sum.splits)
qed

lemma size_child_list:
  "(key, v) \<in> set ps \<Longrightarrow> size v < Suc (size_list (size_prod (\<lambda>x. 0) size) ps)"
  by (induction ps) auto

lemma size_child: "(key, v) \<in> set ps \<Longrightarrow> size v < size (Node k ps)"
  by (simp add: size_child_list)

lemma entries_size:
  "(key, v) \<in> set (entries x) \<Longrightarrow> instanceOfObject v \<Longrightarrow> size v < size x"
proof (cases x)
  case (Prim p)
  assume "(key, v) \<in> set (entries x)" and "instanceOfObject v"
  with Prim show ?thesis by (cases p) (auto simp: stringEntries_def)
next
  case (Node k ps)
  assume "(key, v) \<in> set (entries x)"
  with Node show ?thesis using size_child [of key v ps k] by simp
qed

text \<open>
  The assignment statement \<^verbatim>\<open>x[key] = rhs\<close> on the node \<open>x\<close>, where evaluating the right
  side may throw.
\<close>

definition assign :: "string \<Rightarrow> error + jsval \<Rightarrow> jsval \<Rightarrow> jsval \<times> error option" where
  "assign key rhs x =
     (case rhs of
        Inl e \<Rightarrow> (x, Some e)
      | Inr v \<Rightarrow> (case putProp x key v of Inl e \<Rightarrow> (x, Some e) | Inr x' \<Rightarrow> (x', None)))"

text \<open>The statement \<^verbatim>\<open>delete x[key]\<close> on the node \<open>x\<close>.\<close>

definition deleteKey :: "string \<Rightarrow> jsval \<Rightarrow> jsval \<times> error option" where
  "deleteKey key x = (case delProp x key of Inl e \<Rightarrow> (x, Some e) | Inr x' \<Rightarrow> (x', None))"

text \<open>
  A child object that was mutated in place is still the value of its key in the parent.
\<close>

fun replaceChild :: "jsval \<Rightarrow> string \<Rightarrow> jsval \<Rightarrow> jsval" where
  "replaceChild (Node k ps) key v = Node k (upd ps key v)"
| "replaceChild (Prim p) key v = Prim p"

text \<open>
  \<^verbatim>\<open>deepCopy(obj)\<close>, lines 255-261: a new array or object, filled key by key, composite
  values copied recursively.
\<close>

function deepCopy :: "jsval \<Rightarrow> error + jsval" where
  "deepCopy obj =
     foldE (\<lambda>(key, v) newObj.
              case (if instanceOfObject v then deepCopy v else Inr v) of
                Inl e \<Rightarrow> Inl e
              | Inr v' \<Rightarrow> putProp newObj key v')
           (entries obj) (Node (if isArray obj then KArray else KObject) [])"
  by pat_completeness auto
termination
  by (relation "measure size") (auto simp: entries_size)

declare deepCopy.simps [simp del]

text \<open>
  The body of \<^verbatim>\<open>reset()\<close> after the pointers are resolved, lines 173-188, on the
  committed node \<open>c\<close> and the working node \<open>w\<close>; the result is the working node afterwards.
  \<^verbatim>\<open>this.ns(key).reset()\<close> resolves the pointers of the child namespace, which are
  \<^verbatim>\<open>c[key]\<close> and \<^verbatim>\<open>w[key]\<close>, and runs the same body on them.
\<close>

function reset_node :: "jsval \<Rightarrow> jsval \<Rightarrow> jsval \<times> error option" where
  "reset_node c w =
     (case forEach (entries c)
             (\<lambda>(key, cv) w.
                if instanceOfObject cv then
                  (case getProp w key of
                     Inl e \<Rightarrow> (w, Some e)
                   | Inr wv \<Rightarrow>
                       if typeOf wv \<noteq> TUndefined
                       then (case reset_node cv wv of (wv', r) \<Rightarrow> (replaceChild w key wv', r))
                       else assign key (deepCopy cv) w)
                else assign key (Inr cv) w) w of
        (w1, Some e) \<Rightarrow> (w1, Some e)
      | (w1, None) \<Rightarrow>
          forEach (forInKeys w1)
            (\<lambda>key w. case hasProperty c key of
                        Inl e \<Rightarrow> (w, Some e)
                      | Inr b \<Rightarrow> if \<not> b then deleteKey key w else (w, None)) w1)"
  by pat_completeness auto
termination
  by (relation "measure (\<lambda>(c, w). size c)") (auto simp: entries_size)

declare reset_node.simps [simp del]

text \<open>
  The body of \<^verbatim>\<open>changed()\<close> after the pointers are resolved, lines 204-218.
\<close>

function changed_node :: "jsval \<Rightarrow> jsval \<Rightarrow> error + bool" where
  "changed_node c w =
     (case objectKeysLength c of
        Inl e \<Rightarrow> Inl e
      | Inr n \<Rightarrow>
         (case objectKeysLength w of
            Inl e \<Rightarrow> Inl e
          | Inr m \<Rightarrow>
              if n \<noteq> m then Inr True
              else anyE (\<lambda>(key, cv).
                     case getProp w key of
                       Inl e \<Rightarrow> Inl e
                     | Inr wv \<Rightarrow>
                         if typeOf cv \<noteq> typeOf wv then Inr True
                         else if instanceOfObject cv then changed_node cv wv
                         else Inr (cv \<noteq> wv)) (entries c)))"
  by pat_completeness auto
termination
  by (relation "measure (\<lambda>(c, w). size c)") (auto simp: entries_size)

declare changed_node.simps [simp del]

text \<open>
  The two loops of \<^verbatim>\<open>commit()\<close>, lines 146-155, on the committed node \<open>c\<close> and the
  working node \<open>w\<close>; the result is the committed node afterwards.
\<close>

definition commit_node :: "jsval \<Rightarrow> jsval \<Rightarrow> jsval \<times> error option" where
  "commit_node c w =
     (case forEach (forInKeys c) deleteKey c of
        (c1, Some e) \<Rightarrow> (c1, Some e)
      | (c1, None) \<Rightarrow>
          forEach (entries w)
            (\<lambda>(key, wv). assign key (if instanceOfObject wv then deepCopy wv else Inr wv)) c1)"


section \<open>The store and its namespace handles\<close>

text \<open>
  A backend is a pair of functions over its own storage \<open>'b\<close>; either may throw.
\<close>

record 'b backend =
  backend_save :: "string \<Rightarrow> jsval \<Rightarrow> 'b \<Rightarrow> 'b \<times> error option"
  backend_load :: "string \<Rightarrow> 'b \<Rightarrow> (error + jsval) \<times> 'b"

text \<open>
  A handle is \<^verbatim>\<open>this.id\<close>, \<^verbatim>\<open>this.config.backend\<close> and \<^verbatim>\<open>this.config.namespace\<close>.
  The fields \<^verbatim>\<open>this.data\<close> and \<^verbatim>\<open>this.activeData\<close> are references that \<^verbatim>\<open>ns\<close>
  hands on to every derived handle; the state holds the two trees they refer to (the
  committed and the working tree, \<^verbatim>\<open>undefined\<close> while the working tree does not exist)
  and the storage of the backend. Mutating a node in place is replacing it at its path.
\<close>

record 'b handle =
  ident :: string
  backend :: "'b backend"
  namespace :: "string list"

record 'b state =
  data :: jsval
  activeData :: jsval
  backing :: 'b

text \<open>\<^verbatim>\<open>getPointers()\<close>, lines 237-246: both trees are walked in step.\<close>

fun getPointers_loop :: "jsval \<times> jsval \<Rightarrow> string list \<Rightarrow> error + jsval \<times> jsval" where
  "getPointers_loop (c, w) [] = Inr (c, w)"
| "getPointers_loop (c, w) (n # ns) =
     (case getProp c n of
        Inl e \<Rightarrow> Inl e
      | Inr c' \<Rightarrow> (case getProp w n of Inl e \<Rightarrow> Inl e | Inr w' \<Rightarrow> getPointers_loop (c', w') ns))"

definition getPointers :: "'b handle \<Rightarrow> 'b state \<Rightarrow> error + jsval \<times> jsval" where
  "getPointers h st = getPointers_loop (data st, activeData st) (namespace h)"

text \<open>The tree with the node at a path replaced (the path follows own properties).\<close>

function updateAt :: "jsval \<Rightarrow> string list \<Rightarrow> jsval \<Rightarrow> jsval" where
  "updateAt t [] v = v"
| "updateAt (Node k ps) (n # ns) v =
     (case map_of ps n of
        None \<Rightarrow> Node k ps
      | Some x \<Rightarrow> Node k (upd ps n (updateAt x ns v)))"
| "updateAt (Prim p) (n # ns) v = Prim p"
  by pat_completeness auto
termination
  by (relation "measure (\<lambda>(t, ns, v). size t)") (auto dest!: map_of_SomeD simp: size_child_list)

text \<open>\<^verbatim>\<open>reset()\<close>, lines 165-189.\<close>

definition reset :: "'b handle \<Rightarrow> 'b state \<Rightarrow> 'b state \<times> error option" where
  "reset h st =
     (if falsy (activeData st) then
        (case deepCopy (data st) of
           Inl e \<Rightarrow> (st, Some e)
         | Inr t \<Rightarrow> (st\<lparr>activeData := t\<rparr>, None))
      else
        (case getPointers h st of
           Inl e \<Rightarrow> (st, Some e)
         | Inr (c, w) \<Rightarrow>
             (case reset_node c w of
                (w', r) \<Rightarrow> (st\<lparr>activeData := updateAt (activeData st) (namespace h) w'\<rparr>, r))))"

text \<open>\<^verbatim>\<open>changed()\<close>, lines 196-219.\<close>

definition changed :: "'b handle \<Rightarrow> 'b state \<Rightarrow> error + bool" where
  "changed h st =
     (if falsy (activeData st) then Inr False
      else (case getPointers h st of Inl e \<Rightarrow> Inl e | Inr (c, w) \<Rightarrow> changed_node c w))"

text \<open>
  \<^verbatim>\<open>commit(save)\<close>, lines 142-160; \<open>None\<close> is a call without a boolean argument. When
  \<^verbatim>\<open>save\<close> throws, the statements after it do not run.
\<close>

definition commit :: "'b handle \<Rightarrow> bool option \<Rightarrow> 'b state \<Rightarrow> 'b state \<times> error option" where
  "commit h save st =
     (let save' = (case save of Some b \<Rightarrow> b | None \<Rightarrow> True) in
      case getPointers h st of
        Inl e \<Rightarrow> (st, Some e)
      | Inr (c, w) \<Rightarrow>
          (case commit_node c w of
             (c', r) \<Rightarrow>
               let st1 = st\<lparr>data := updateAt (data st) (namespace h) c'\<rparr> in
               (case r of
                  Some e \<Rightarrow> (st1, Some e)
                | None \<Rightarrow>
                    if save' then
                      (case backend_save (backend h) (ident h) (data st1) (backing st1) of
                         (b', Some e) \<Rightarrow> (st1\<lparr>backing := b'\<rparr>, Some e)
                       | (b', None) \<Rightarrow> reset h (st1\<lparr>backing := b'\<rparr>))
                    else reset h st1)))"

text \<open>
  \<^verbatim>\<open>resetPointer()\<close>, lines 292-299; the result is the value of \<^verbatim>\<open>this.pointer\<close>
  afterwards. The first branch does not assign \<^verbatim>\<open>this.pointer\<close>; the field is assigned
  nowhere else, and the working tree never ceases to exist, so in that branch the field
  still is \<^verbatim>\<open>undefined\<close>.
\<close>

definition resetPointer :: "'b handle \<Rightarrow> 'b state \<Rightarrow> (error + jsval) \<times> 'b state" where
  "resetPointer h st =
     (if falsy (activeData st) then
        (case reset h st of
           (st', Some e) \<Rightarrow> (Inl e, st')
         | (st', None) \<Rightarrow> (Inr (Prim PUndefined), st'))
      else
        (case getPointers h st of
           Inl e \<Rightarrow> (Inl e, st)
         | Inr (c, w) \<Rightarrow> (Inr w, st)))"

text \<open>\<^verbatim>\<open>get(key)\<close>, \<^verbatim>\<open>has(key)\<close>, \<^verbatim>\<open>set(key, value)\<close>, \<^verbatim>\<open>unset(key)\<close>, lines 80-119.\<close>

definition get :: "'b handle \<Rightarrow> string \<Rightarrow> 'b state \<Rightarrow> (error + jsval) \<times> 'b state" where
  "get h key st =
     (case resetPointer h st of
        (Inl e, st') \<Rightarrow> (Inl e, st')
      | (Inr p, st') \<Rightarrow> (getProp p key, st'))"

definition has :: "'b handle \<Rightarrow> string \<Rightarrow> 'b state \<Rightarrow> (error + bool) \<times> 'b state" where
  "has h key st =
     (case resetPointer h st of
        (Inl e, st') \<Rightarrow> (Inl e, st')
      | (Inr p, st') \<Rightarrow> (hasProperty p key, st'))"

definition set_value :: "'b handle \<Rightarrow> string \<Rightarrow> jsval \<Rightarrow> 'b state \<Rightarrow> 'b state \<times> error option" where
  "set_value h key v st =
     (case resetPointer h st of
        (Inl e, st') \<Rightarrow> (st', Some e)
      | (Inr p, st') \<Rightarrow>
          (case assign key (Inr v) p of
             (p', r) \<Rightarrow> (st'\<lparr>activeData := updateAt (activeData st') (namespace h) p'\<rparr>, r)))"

definition unset :: "'b handle \<Rightarrow> string \<Rightarrow> 'b state \<Rightarrow> 'b state \<times> error option" where
  "unset h key st =
     (case resetPointer h st of
        (Inl e, st') \<Rightarrow> (st', Some e)
      | (Inr p, st') \<Rightarrow>
          (case deleteKey key p of
             (p', r) \<Rightarrow> (st'\<lparr>activeData := updateAt (activeData st') (namespace h) p'\<rparr>, r)))"

text \<open>
  \<^verbatim>\<open>Object.getOwnPropertyNames(x)\<close>. An array and a primitive string also list their own
  \<^verbatim>\<open>length\<close>, which comes after the indices.
\<close>

fun getOwnPropertyNames :: "jsval \<Rightarrow> error + string list" where
  "getOwnPropertyNames (Prim PUndefined) = Inl TypeError"
| "getOwnPropertyNames (Prim PNull) = Inl TypeError"
| "getOwnPropertyNames (Prim (PStr s)) = Inr (map fst (stringEntries s) @ [''length''])"
| "getOwnPropertyNames (Prim (PNum n)) = Inr []"
| "getOwnPropertyNames (Prim (PBool b)) = Inr []"
| "getOwnPropertyNames (Node KObject ps) = Inr (ownKeys (map fst ps))"
| "getOwnPropertyNames (Node KArray ps) =
     Inr (indexKeys (map fst ps) @ [''length'']
          @ filter (\<lambda>k. \<not> isArrayIndex k) (map fst ps))"

text \<open>The array literal with the given elements.\<close>

definition arrayOf :: "jsval list \<Rightarrow> jsval" where
  "arrayOf vs = Node KArray (zip (map showNat [0..<length vs]) vs)"

text \<open>
  \<^verbatim>\<open>keys()\<close>, lines 68-72. The result is a new array. For an array,
  \<^verbatim>\<open>this.pointer.map((_, k) => k)\<close> puts the number \<^verbatim>\<open>k\<close> at every index \<^verbatim>\<open>k\<close> that is
  present and leaves a hole at every index that is missing; for anything else the result
  holds the own property names as strings.
\<close>

definition keys :: "'b handle \<Rightarrow> 'b state \<Rightarrow> (error + jsval) \<times> 'b state" where
  "keys h st =
     (case resetPointer h st of
        (Inl e, st') \<Rightarrow> (Inl e, st')
      | (Inr p, st') \<Rightarrow>
          (if isArray p
           then Inr (Node KArray (map (\<lambda>k. (k, Prim (PNum (int (readNat k)))))
                                    (indexKeys (map fst (entries p)))))
           else (case getOwnPropertyNames p of
                   Inl e \<Rightarrow> Inl e
                 | Inr ns \<Rightarrow> Inr (arrayOf (map (\<lambda>k. Prim (PStr k)) ns))), st'))"

text \<open>\<^verbatim>\<open>load()\<close>, \<^verbatim>\<open>loadData(data, override)\<close> and the constructor, lines 16-31, 270-287.\<close>

definition load :: "'b handle \<Rightarrow> 'b state \<Rightarrow> 'b state \<times> error option" where
  "load h st =
     (case backend_load (backend h) (ident h) (backing st) of
        (Inl e, b') \<Rightarrow> (st\<lparr>backing := b'\<rparr>, Some e)
      | (Inr t, b') \<Rightarrow> reset h (st\<lparr>data := t, backing := b'\<rparr>))"

definition loadData :: "'b handle \<Rightarrow> jsval \<Rightarrow> bool \<Rightarrow> 'b state \<Rightarrow> 'b state \<times> error option" where
  "loadData h d override st =
     (let st1 = st\<lparr>data := d\<rparr> in
      if override then reset h st1
      else (case resetPointer h st1 of
              (Inl e, st2) \<Rightarrow> (st2, Some e)
            | (Inr p, st2) \<Rightarrow> (st2, None)))"

text \<open>
  \<^verbatim>\<open>new DataStore(id, data, {backend})\<close>: a root store, with no namespace and no working
  tree passed in.
\<close>

definition newDataStore ::
  "string \<Rightarrow> jsval \<Rightarrow> 'b backend \<Rightarrow> 'b \<Rightarrow> 'b handle \<times> 'b state \<times> error option" where
  "newDataStore i d B b =
     (let h = \<lparr>ident = i, backend = B, namespace = []\<rparr>;
          st = \<lparr>data = Node KObject [], activeData = Prim PUndefined, backing = b\<rparr>
      in (h, if \<not> falsy d then loadData h d False st else load h st))"

text \<open>
  \<^verbatim>\<open>findFreeKey(name, separator, firstClean)\<close>, lines 309-318. The loop has no bound of
  its own, so not returning is the value \<open>None\<close>. The counter is a natural number.
\<close>

partial_function (option) findFreeKey_loop ::
  "'b handle \<Rightarrow> string \<Rightarrow> string \<Rightarrow> bool \<Rightarrow> nat \<Rightarrow> 'b state \<Rightarrow> ((error + string) \<times> 'b state) option" where
  "findFreeKey_loop h name separator firstClean i st =
     (let i' = i + 1;
          newName = name @ (if firstClean \<and> i' = 1 then [] else separator @ showNat i')
      in case has h newName st of
           (Inl e, st') \<Rightarrow> Some (Inl e, st')
         | (Inr b, st') \<Rightarrow>
             if b then findFreeKey_loop h name separator firstClean i' st'
             else Some (Inr newName, st'))"

definition findFreeKey ::
  "'b handle \<Rightarrow> string \<Rightarrow> string option \<Rightarrow> bool \<Rightarrow> 'b state \<Rightarrow> ((error + string) \<times> 'b state) option" where
  "findFreeKey h name separator firstClean st =
     findFreeKey_loop h name (case separator of Some s \<Rightarrow> s | None \<Rightarrow> []) firstClean 0 st"

text \<open>
  The name tried in round \<open>i\<close> of the loop of \<^verbatim>\<open>findFreeKey\<close>, line 315.
\<close>

definition candidate :: "string \<Rightarrow> string \<Rightarrow> bool \<Rightarrow> nat \<Rightarrow> string" where
  "candidate name separator firstClean i =
     name @ (if firstClean \<and> i = 1 then [] else separator @ showNat i)"

subsection \<open>Backends used in examples\<close>

text \<open>
  The in-memory backend of the test suite (\<^verbatim>\<open>backendFactory\<close>): its storage is an
  object from identifiers to trees, and both directions copy.
\<close>

definition backendFactory :: "jsval backend" where
  "backendFactory =
     \<lparr>backend_save = (\<lambda>i t b. assign i (deepCopy t) b),
      backend_load = (\<lambda>i b. (case getProp b i of Inl e \<Rightarrow> Inl e | Inr v \<Rightarrow> deepCopy v, b))\<rparr>"



text \<open>A backend whose \<^verbatim>\<open>save\<close> always throws.\<close>

definition failingBackend :: "unit backend" where
  "failingBackend =
     \<lparr>backend_save = (\<lambda>i t b. (b, Some (BackendError ''save failed''))),
      backend_load = (\<lambda>i b. (Inr (Node KObject []), b))\<rparr>"

text \<open>The handle of a root store with identifier \<^verbatim>\<open>data\<close>.\<close>

definition root :: "'b backend \<Rightarrow> 'b handle" where
  "root B = \<lparr>ident = ''data'', backend = B, namespace = []\<rparr>"

subsection \<open>Well-formed trees\<close>

text \<open>
  A list of properties stands for an object when no name occurs twice. An object has no
  own property \<^verbatim>\<open>__proto__\<close> and an array no own enumerable \<^verbatim>\<open>length\<close>: assignment
  cannot create either.
\<close>

fun wf :: "jsval \<Rightarrow> bool" where
  "wf (Prim p) = True"
| "wf (Node k ps) =
     (distinct (map fst ps) \<and> ''__proto__'' \<notin> set (map fst ps)
      \<and> (k = KArray \<longrightarrow> ''length'' \<notin> set (map fst ps))
      \<and> list_all (\<lambda>(key, v). wf v) ps)"

subsection \<open>The loop bodies of \<^verbatim>\<open>reset\<close> by name\<close>





subsection \<open>Deep equality\<close>

text \<open>
  Two trees are deep-equal when they are the same primitive, or nodes of the same kind
  with the same names and deep-equal values under each name; the order of the names does
  not count. They are equal in order when moreover \<^verbatim>\<open>Object.getOwnPropertyNames\<close> lists
  the names of every node in the same order. The flag of \<open>treeEq\<close> asks for the order.
\<close>

function treeEq :: "bool \<Rightarrow> jsval \<Rightarrow> jsval \<Rightarrow> bool" where
  "treeEq ord (Prim p) (Prim q) = (p = q)"
| "treeEq ord (Node k ps) (Node k' qs) =
     (k = k' \<and> set (map fst ps) = set (map fst qs)
      \<and> (ord \<longrightarrow> ownKeys (map fst ps) = ownKeys (map fst qs))
      \<and> list_all (\<lambda>(key, v). case map_of qs key of Some v' \<Rightarrow> treeEq ord v v' | None \<Rightarrow> False) ps)"
| "treeEq ord (Prim p) (Node k' qs) = False"
| "treeEq ord (Node k ps) (Prim q) = False"
  by pat_completeness auto
termination
  by (relation "measure (\<lambda>(ord, a, b). size a)") (auto simp: size_child_list)

abbreviation deepEq :: "jsval \<Rightarrow> jsval \<Rightarrow> bool" where
  "deepEq \<equiv> treeEq False"

abbreviation orderedEq :: "jsval \<Rightarrow> jsval \<Rightarrow> bool" where
  "orderedEq \<equiv> treeEq True"


section \<open>The store on a heap of objects\<close>

text \<open>
  Who shares what with whom cannot be read off trees. For the claims about references the
  same class is embedded a second time over an explicit heap: an object is a cell with an
  address, a value is a primitive or the address of an object, and a \<^verbatim>\<open>DataStore\<close>
  instance is the record of its fields, whose \<^verbatim>\<open>data\<close>, \<^verbatim>\<open>activeData\<close> and \<^verbatim>\<open>pointer\<close>
  are such values. Objects are never freed; a new object takes the next address.
\<close>

type_synonym addr = nat

datatype jsref = RPrim prim | RObj addr

record obj =
  okind :: kind
  oprops :: "(string \<times> jsref) list"

type_synonym heap = "obj list"

text \<open>
  A computation returns, throws, or exhausts its recursion budget (the call stack); the
  heap it leaves behind is part of the result in each case.
\<close>

datatype 'a result = Return 'a | Throw error | Exhausted

text \<open>A backend reads the heap it is handed and may allocate; it has its own storage.\<close>

record 'b hbackend =
  hb_save :: "string \<Rightarrow> jsref \<Rightarrow> heap \<Rightarrow> 'b \<Rightarrow> unit result \<times> heap \<times> 'b"
  hb_load :: "string \<Rightarrow> heap \<Rightarrow> 'b \<Rightarrow> jsref result \<times> heap \<times> 'b"

record 'b world =
  heap :: heap
  storage :: 'b

record 'b dataStore =
  ds_id :: string
  ds_backend :: "'b hbackend"
  ds_namespace :: "string list"
  ds_data :: jsref
  ds_activeData :: jsref
  ds_pointer :: jsref

subsection \<open>Operators on heap values\<close>

fun typeOfH :: "jsref \<Rightarrow> jstype" where
  "typeOfH (RPrim p) = typeOf (Prim p)"
| "typeOfH (RObj a) = TObject"

fun instanceOfObjectH :: "jsref \<Rightarrow> bool" where
  "instanceOfObjectH (RObj a) = True"
| "instanceOfObjectH (RPrim p) = False"

fun falsyH :: "jsref \<Rightarrow> bool" where
  "falsyH (RPrim p) = falsy (Prim p)"
| "falsyH (RObj a) = False"

fun isArrayH :: "heap \<Rightarrow> jsref \<Rightarrow> bool" where
  "isArrayH H (RObj a) = (a < length H \<and> okind (H ! a) = KArray)"
| "isArrayH H (RPrim p) = False"

text \<open>A primitive read from a primitive (a character of a string) as a heap value.\<close>

fun toRef :: "jsval \<Rightarrow> jsref" where
  "toRef (Prim p) = RPrim p"
| "toRef (Node k ps) = RPrim PUndefined"

text \<open>The own enumerable properties, as \<open>entries\<close> gives them for trees.\<close>

fun entriesH :: "heap \<Rightarrow> jsref \<Rightarrow> (string \<times> jsref) list" where
  "entriesH H (RObj a) = (if a < length H then oprops (H ! a) else [])"
| "entriesH H (RPrim p) = map (\<lambda>(key, v). (key, toRef v)) (entries (Prim p))"

text \<open>
  \<^verbatim>\<open>x[key]\<close> as a read, \<^verbatim>\<open>key in x\<close>, \<^verbatim>\<open>x[key] = v\<close> and \<^verbatim>\<open>delete x[key]\<close>, as
  \<open>getProp\<close>, \<open>hasProperty\<close>, \<open>putProp\<close> and \<open>delProp\<close> for trees. An address beyond the
  heap does not occur in a heap built by these operations; it is outside the model.
\<close>

fun getPropH :: "heap \<Rightarrow> jsref \<Rightarrow> string \<Rightarrow> error + jsref" where
  "getPropH H (RObj a) key =
     (if a < length H then
        (case map_of (oprops (H ! a)) key of
           Some v \<Rightarrow> Inr v
         | None \<Rightarrow> if key \<in> set (inherited (okind (H ! a))) then Inl OutsideModel
                   else Inr (RPrim PUndefined))
      else Inl OutsideModel)"
| "getPropH H (RPrim p) key =
     (case getProp (Prim p) key of Inl e \<Rightarrow> Inl e | Inr v \<Rightarrow> Inr (toRef v))"

fun hasPropertyH :: "heap \<Rightarrow> jsref \<Rightarrow> string \<Rightarrow> error + bool" where
  "hasPropertyH H (RObj a) key =
     (if a < length H
      then Inr (key \<in> set (map fst (oprops (H ! a))) \<or> key \<in> set (inherited (okind (H ! a))))
      else Inl OutsideModel)"
| "hasPropertyH H (RPrim p) key = Inl TypeError"

text \<open>Replacing the value of a name where it stands, or appending a new name.\<close>

fun updH :: "(string \<times> jsref) list \<Rightarrow> string \<Rightarrow> jsref \<Rightarrow> (string \<times> jsref) list" where
  "updH [] key v = [(key, v)]"
| "updH ((k, x) # ps) key v = (if k = key then (k, v) # ps else (k, x) # updH ps key v)"

fun putPropH :: "heap \<Rightarrow> jsref \<Rightarrow> string \<Rightarrow> jsref \<Rightarrow> error + heap" where
  "putPropH H (RObj a) key v =
     (if a < length H then
        (if key = ''__proto__'' \<or> (okind (H ! a) = KArray \<and> key = ''length'')
         then Inl OutsideModel
         else Inr (H[a := (H ! a)\<lparr>oprops := updH (oprops (H ! a)) key v\<rparr>]))
      else Inl OutsideModel)"
| "putPropH H (RPrim p) key v = Inl TypeError"

fun delPropH :: "heap \<Rightarrow> jsref \<Rightarrow> string \<Rightarrow> error + heap" where
  "delPropH H (RObj a) key =
     (if a < length H then
        (if okind (H ! a) = KArray \<and> key = ''length'' then Inl TypeError
         else Inr (H[a := (H ! a)\<lparr>oprops := filter (\<lambda>(k', x). k' \<noteq> key) (oprops (H ! a))\<rparr>]))
      else Inl OutsideModel)"
| "delPropH H (RPrim p) key =
     (case delProp (Prim p) key of Inl e \<Rightarrow> Inl e | Inr v \<Rightarrow> Inr H)"

text \<open>The statements \<^verbatim>\<open>x[key] = v\<close> and \<^verbatim>\<open>delete x[key]\<close> on a heap.\<close>

definition assignH :: "jsref \<Rightarrow> string \<Rightarrow> jsref \<Rightarrow> heap \<Rightarrow> unit result \<times> heap" where
  "assignH x key v H =
     (case putPropH H x key v of Inl e \<Rightarrow> (Throw e, H) | Inr H' \<Rightarrow> (Return (), H'))"

definition deleteKeyH :: "jsref \<Rightarrow> string \<Rightarrow> heap \<Rightarrow> unit result \<times> heap" where
  "deleteKeyH x key H =
     (case delPropH H x key of Inl e \<Rightarrow> (Throw e, H) | Inr H' \<Rightarrow> (Return (), H'))"

text \<open>
  A loop whose body is a statement: it stops at the first round that does not return.
  The keys of a \<^verbatim>\<open>for ... in\<close> loop are those the object has when the loop starts; the
  value of a key is read in its round.
\<close>

fun forEachH :: "'a list \<Rightarrow> ('a \<Rightarrow> 's \<Rightarrow> unit result \<times> 's) \<Rightarrow> 's \<Rightarrow> unit result \<times> 's" where
  "forEachH [] f s = (Return (), s)"
| "forEachH (x # xs) f s =
     (case f x s of (Return u, s') \<Rightarrow> forEachH xs f s' | (r, s') \<Rightarrow> (r, s'))"

lemma forEachH_cong [fundef_cong]:
  "xs = ys \<Longrightarrow> s = t \<Longrightarrow> (\<And>x a. x \<in> set ys \<Longrightarrow> f x a = g x a)
   \<Longrightarrow> forEachH xs f s = forEachH ys g t"
proof (induction ys arbitrary: xs s t)
  case Nil
  then show ?case by simp
next
  case (Cons y ys)
  then show ?case by (auto split: prod.splits result.splits)
qed

text \<open>
  \<^verbatim>\<open>deepCopy(obj)\<close>, lines 255-261: the new object is allocated first, then filled.
\<close>

fun deepCopyH :: "nat \<Rightarrow> jsref \<Rightarrow> heap \<Rightarrow> jsref result \<times> heap" where
  "deepCopyH 0 obj H = (Exhausted, H)"
| "deepCopyH (Suc n) obj H =
     (let newObj = RObj (length H);
          H0 = H @ [\<lparr>okind = (if isArrayH H obj then KArray else KObject), oprops = []\<rparr>]
      in case forEachH (map fst (entriesH H obj))
                (\<lambda>key Hc.
                   case getPropH Hc obj key of
                     Inl e \<Rightarrow> (Throw e, Hc)
                   | Inr v \<Rightarrow>
                       (case (if instanceOfObjectH v then deepCopyH n v Hc else (Return v, Hc)) of
                          (Return v', Hc') \<Rightarrow> assignH newObj key v' Hc'
                        | (Throw e, Hc') \<Rightarrow> (Throw e, Hc')
                        | (Exhausted, Hc') \<Rightarrow> (Exhausted, Hc'))) H0 of
           (Return u, H') \<Rightarrow> (Return newObj, H')
         | (Throw e, H') \<Rightarrow> (Throw e, H')
         | (Exhausted, H') \<Rightarrow> (Exhausted, H'))"

text \<open>\<^verbatim>\<open>getPointers()\<close>, lines 237-246.\<close>

fun getPointersH_loop :: "heap \<Rightarrow> jsref \<times> jsref \<Rightarrow> string list \<Rightarrow> error + jsref \<times> jsref" where
  "getPointersH_loop H (c, w) [] = Inr (c, w)"
| "getPointersH_loop H (c, w) (n # ns) =
     (case getPropH H c n of
        Inl e \<Rightarrow> Inl e
      | Inr c' \<Rightarrow>
          (case getPropH H w n of Inl e \<Rightarrow> Inl e | Inr w' \<Rightarrow> getPointersH_loop H (c', w') ns))"

definition getPointersH :: "'b dataStore \<Rightarrow> heap \<Rightarrow> error + jsref \<times> jsref" where
  "getPointersH this H = getPointersH_loop H (ds_data this, ds_activeData this) (ds_namespace this)"

text \<open>
  The methods that call one another around \<^verbatim>\<open>reset()\<close> take the \<^verbatim>\<open>reset\<close> they call as
  an argument; \<open>resetH\<close> below closes the circle. Each returns the instance with its
  fields as the call left them.
\<close>

type_synonym 'b procedure = "'b dataStore \<Rightarrow> 'b world \<Rightarrow> unit result \<times> 'b dataStore \<times> 'b world"

text \<open>\<^verbatim>\<open>resetPointer()\<close>, lines 292-299.\<close>

definition resetPointerWith :: "'b procedure \<Rightarrow> 'b procedure" where
  "resetPointerWith rst this W =
     (if falsyH (ds_activeData this) then rst this W
      else (case getPointersH this (heap W) of
              Inl e \<Rightarrow> (Throw e, this, W)
            | Inr (c, w) \<Rightarrow> (Return (), this\<lparr>ds_pointer := w\<rparr>, W)))"

text \<open>\<^verbatim>\<open>loadData(data, override)\<close>, lines 270-278, and \<^verbatim>\<open>load()\<close>, lines 283-287.\<close>

definition loadDataWith :: "'b procedure \<Rightarrow> jsref \<Rightarrow> bool \<Rightarrow> 'b procedure" where
  "loadDataWith rst d override this W =
     (let this1 = this\<lparr>ds_data := d\<rparr>
      in if override then rst this1 W else resetPointerWith rst this1 W)"

definition loadWith :: "'b procedure \<Rightarrow> 'b procedure" where
  "loadWith rst this W =
     (case hb_load (ds_backend this) (ds_id this) (heap W) (storage W) of
        (Return t, H', b') \<Rightarrow> rst (this\<lparr>ds_data := t\<rparr>) \<lparr>heap = H', storage = b'\<rparr>
      | (Throw e, H', b') \<Rightarrow> (Throw e, this, \<lparr>heap = H', storage = b'\<rparr>)
      | (Exhausted, H', b') \<Rightarrow> (Exhausted, this, \<lparr>heap = H', storage = b'\<rparr>))"

text \<open>
  The constructor, lines 16-31, with the backend and the namespace of the configuration
  given; \<^verbatim>\<open>this.data = {}\<close> allocates.
\<close>

definition constructWith ::
  "'b procedure \<Rightarrow> string \<Rightarrow> jsref \<Rightarrow> 'b hbackend \<Rightarrow> string list \<Rightarrow> jsref \<Rightarrow> 'b world
   \<Rightarrow> unit result \<times> 'b dataStore \<times> 'b world" where
  "constructWith rst i d B nsp a W =
     (let this = \<lparr>ds_id = i, ds_backend = B, ds_namespace = nsp,
                  ds_data = RObj (length (heap W)), ds_activeData = a,
                  ds_pointer = RPrim PUndefined\<rparr>;
          W0 = W\<lparr>heap := heap W @ [\<lparr>okind = KObject, oprops = []\<rparr>]\<rparr>
      in if \<not> falsyH d then loadDataWith rst d False this W0 else loadWith rst this W0)"

text \<open>\<^verbatim>\<open>ns(name)\<close>, lines 128-134; the result is the new instance.\<close>

definition nsWith ::
  "'b procedure \<Rightarrow> 'b dataStore \<Rightarrow> string \<Rightarrow> 'b world \<Rightarrow> unit result \<times> 'b dataStore \<times> 'b world" where
  "nsWith rst this name W =
     constructWith rst (ds_id this) (ds_data this) (ds_backend this)
       (ds_namespace this @ [name]) (ds_activeData this) W"

text \<open>
  A statement on the heap as a statement on the world, and the result of a copy passed on.
\<close>

definition onHeap :: "(heap \<Rightarrow> unit result \<times> heap) \<Rightarrow> 'b world \<Rightarrow> unit result \<times> 'b world" where
  "onHeap f W = (case f (heap W) of (r, H') \<Rightarrow> (r, W\<lparr>heap := H'\<rparr>))"

definition assignCopyH :: "nat \<Rightarrow> jsref \<Rightarrow> string \<Rightarrow> jsref \<Rightarrow> heap \<Rightarrow> unit result \<times> heap" where
  "assignCopyH n x key v H =
     (case deepCopyH n v H of
        (Return v', H') \<Rightarrow> assignH x key v' H'
      | (Throw e, H') \<Rightarrow> (Throw e, H')
      | (Exhausted, H') \<Rightarrow> (Exhausted, H'))"

text \<open>\<^verbatim>\<open>reset()\<close>, lines 165-189.\<close>

fun resetH :: "nat \<Rightarrow> 'b procedure" where
  "resetH 0 this W = (Exhausted, this, W)"
| "resetH (Suc n) this W =
     (if falsyH (ds_activeData this) then
        (case deepCopyH n (ds_data this) (heap W) of
           (Return t, H') \<Rightarrow> (Return (), this\<lparr>ds_activeData := t\<rparr>, W\<lparr>heap := H'\<rparr>)
         | (Throw e, H') \<Rightarrow> (Throw e, this, W\<lparr>heap := H'\<rparr>)
         | (Exhausted, H') \<Rightarrow> (Exhausted, this, W\<lparr>heap := H'\<rparr>))
      else
        (case getPointersH this (heap W) of
           Inl e \<Rightarrow> (Throw e, this, W)
         | Inr (c, w) \<Rightarrow>
             (case forEachH (map fst (entriesH (heap W) c))
                     (\<lambda>key Wc.
                        case getPropH (heap Wc) c key of
                          Inl e \<Rightarrow> (Throw e, Wc)
                        | Inr cv \<Rightarrow>
                            if instanceOfObjectH cv then
                              (case getPropH (heap Wc) w key of
                                 Inl e \<Rightarrow> (Throw e, Wc)
                               | Inr wv \<Rightarrow>
                                   if typeOfH wv \<noteq> TUndefined then
                                     (case nsWith (resetH n) this key Wc of
                                        (Return u, child, Wc') \<Rightarrow>
                                          (case resetH n child Wc' of (r, child', Wc'') \<Rightarrow> (r, Wc''))
                                      | (r, child, Wc') \<Rightarrow> (r, Wc'))
                                   else onHeap (assignCopyH n w key cv) Wc)
                            else onHeap (assignH w key cv) Wc) W of
                (Return u, W1) \<Rightarrow>
                  (case forEachH (map fst (entriesH (heap W1) w))
                          (\<lambda>key Wc.
                             case hasPropertyH (heap Wc) c key of
                               Inl e \<Rightarrow> (Throw e, Wc)
                             | Inr b \<Rightarrow>
                                 if \<not> b then onHeap (deleteKeyH w key) Wc
                                 else (Return (), Wc)) W1 of
                     (r, W2) \<Rightarrow> (r, this, W2))
              | (r, W1) \<Rightarrow> (r, this, W1))))"

text \<open>The methods around \<^verbatim>\<open>reset()\<close> with a recursion budget.\<close>

definition resetPointerH :: "nat \<Rightarrow> 'b procedure" where
  "resetPointerH n = resetPointerWith (resetH n)"

definition nsH ::
  "nat \<Rightarrow> 'b dataStore \<Rightarrow> string \<Rightarrow> 'b world \<Rightarrow> unit result \<times> 'b dataStore \<times> 'b world" where
  "nsH n = nsWith (resetH n)"

definition newDataStoreH ::
  "nat \<Rightarrow> string \<Rightarrow> jsref \<Rightarrow> 'b hbackend \<Rightarrow> 'b world \<Rightarrow> unit result \<times> 'b dataStore \<times> 'b world" where
  "newDataStoreH n i d B W = constructWith (resetH n) i d B [] (RPrim PUndefined) W"

text \<open>
  \<^verbatim>\<open>get(key)\<close>, \<^verbatim>\<open>has(key)\<close>, \<^verbatim>\<open>set(key, value)\<close>, \<^verbatim>\<open>unset(key)\<close> and \<^verbatim>\<open>keys()\<close>,
  lines 68-119. Each refreshes \<^verbatim>\<open>this.pointer\<close> and then uses the field.
\<close>

definition getH ::
  "nat \<Rightarrow> 'b dataStore \<Rightarrow> string \<Rightarrow> 'b world \<Rightarrow> jsref result \<times> 'b dataStore \<times> 'b world" where
  "getH n this key W =
     (case resetPointerH n this W of
        (Return u, this', W') \<Rightarrow>
          (case getPropH (heap W') (ds_pointer this') key of
             Inl e \<Rightarrow> (Throw e, this', W')
           | Inr v \<Rightarrow> (Return v, this', W'))
      | (Throw e, this', W') \<Rightarrow> (Throw e, this', W')
      | (Exhausted, this', W') \<Rightarrow> (Exhausted, this', W'))"

definition hasH ::
  "nat \<Rightarrow> 'b dataStore \<Rightarrow> string \<Rightarrow> 'b world \<Rightarrow> bool result \<times> 'b dataStore \<times> 'b world" where
  "hasH n this key W =
     (case resetPointerH n this W of
        (Return u, this', W') \<Rightarrow>
          (case hasPropertyH (heap W') (ds_pointer this') key of
             Inl e \<Rightarrow> (Throw e, this', W')
           | Inr b \<Rightarrow> (Return b, this', W'))
      | (Throw e, this', W') \<Rightarrow> (Throw e, this', W')
      | (Exhausted, this', W') \<Rightarrow> (Exhausted, this', W'))"

definition setH ::
  "nat \<Rightarrow> 'b dataStore \<Rightarrow> string \<Rightarrow> jsref \<Rightarrow> 'b world \<Rightarrow> unit result \<times> 'b dataStore \<times> 'b world" where
  "setH n this key v W =
     (case resetPointerH n this W of
        (Return u, this', W') \<Rightarrow>
          (case onHeap (assignH (ds_pointer this') key v) W' of (r, W'') \<Rightarrow> (r, this', W''))
      | (r, this', W') \<Rightarrow> (r, this', W'))"

definition unsetH ::
  "nat \<Rightarrow> 'b dataStore \<Rightarrow> string \<Rightarrow> 'b world \<Rightarrow> unit result \<times> 'b dataStore \<times> 'b world" where
  "unsetH n this key W =
     (case resetPointerH n this W of
        (Return u, this', W') \<Rightarrow>
          (case onHeap (deleteKeyH (ds_pointer this') key) W' of (r, W'') \<Rightarrow> (r, this', W''))
      | (r, this', W') \<Rightarrow> (r, this', W'))"

text \<open>\<^verbatim>\<open>get isArray()\<close>, lines 58-61: the field is read as the last call left it.\<close>

definition isArrayOfH :: "'b dataStore \<Rightarrow> 'b world \<Rightarrow> bool" where
  "isArrayOfH this W = isArrayH (heap W) (ds_pointer this)"

text \<open>
  The keys that \<^verbatim>\<open>keys()\<close> returns, as a \<^verbatim>\<open>for ... of\<close> loop over the result uses them
  for property names; the array that holds them is the caller's and is not part of the
  heap. An index of an array is its numeral, and a hole of the result, which the loop
  receives as \<^verbatim>\<open>undefined\<close>, is the name \<^verbatim>\<open>undefined\<close>; a callback is handed the key in
  this form as well. As for trees, holes after the last index are not represented.
\<close>

definition arrayLoopKeys :: "string list \<Rightarrow> string list" where
  "arrayLoopKeys ns =
     (let idx = indexKeys ns
      in map (\<lambda>i. if showNat i \<in> set idx then showNat i else ''undefined'')
           [0..<(if idx = [] then 0 else Suc (readNat (last idx)))])"

fun getOwnPropertyNamesH :: "heap \<Rightarrow> jsref \<Rightarrow> error + string list" where
  "getOwnPropertyNamesH H (RObj a) =
     (if a < length H
      then Inr (case okind (H ! a) of
                  KObject \<Rightarrow> ownKeys (map fst (oprops (H ! a)))
                | KArray \<Rightarrow> indexKeys (map fst (oprops (H ! a))) @ [''length'']
                            @ filter (\<lambda>k. \<not> isArrayIndex k) (map fst (oprops (H ! a))))
      else Inl OutsideModel)"
| "getOwnPropertyNamesH H (RPrim p) = getOwnPropertyNames (Prim p)"

definition keysH ::
  "nat \<Rightarrow> 'b dataStore \<Rightarrow> 'b world \<Rightarrow> string list result \<times> 'b dataStore \<times> 'b world" where
  "keysH n this W =
     (case resetPointerH n this W of
        (Return u, this', W') \<Rightarrow>
          (case (if isArrayOfH this' W'
                 then Inr (arrayLoopKeys (map fst (entriesH (heap W') (ds_pointer this'))))
                 else getOwnPropertyNamesH (heap W') (ds_pointer this')) of
             Inl e \<Rightarrow> (Throw e, this', W')
           | Inr ks \<Rightarrow> (Return ks, this', W'))
      | (Throw e, this', W') \<Rightarrow> (Throw e, this', W')
      | (Exhausted, this', W') \<Rightarrow> (Exhausted, this', W'))"

text \<open>\<^verbatim>\<open>commit(save)\<close>, lines 142-160.\<close>

definition commitH ::
  "nat \<Rightarrow> 'b dataStore \<Rightarrow> bool option \<Rightarrow> 'b world \<Rightarrow> unit result \<times> 'b dataStore \<times> 'b world" where
  "commitH n this save W =
     (let save' = (case save of Some b \<Rightarrow> b | None \<Rightarrow> True) in
      case getPointersH this (heap W) of
        Inl e \<Rightarrow> (Throw e, this, W)
      | Inr (c, w) \<Rightarrow>
          (case forEachH (map fst (entriesH (heap W) c)) (\<lambda>key. onHeap (deleteKeyH c key)) W of
             (Return u, W1) \<Rightarrow>
               (case forEachH (map fst (entriesH (heap W1) w))
                       (\<lambda>key Wc.
                          case getPropH (heap Wc) w key of
                            Inl e \<Rightarrow> (Throw e, Wc)
                          | Inr wv \<Rightarrow>
                              if instanceOfObjectH wv then onHeap (assignCopyH n c key wv) Wc
                              else onHeap (assignH c key wv) Wc) W1 of
                  (Return u, W2) \<Rightarrow>
                    if save' then
                      (case hb_save (ds_backend this) (ds_id this) (ds_data this)
                              (heap W2) (storage W2) of
                         (Return u, H3, b3) \<Rightarrow> resetH n this \<lparr>heap = H3, storage = b3\<rparr>
                       | (r, H3, b3) \<Rightarrow> (r, this, \<lparr>heap = H3, storage = b3\<rparr>))
                    else resetH n this W2
                | (r, W2) \<Rightarrow> (r, this, W2))
           | (r, W1) \<Rightarrow> (r, this, W1)))"

text \<open>
  \<^verbatim>\<open>map(callback, inPlace)\<close> and \<^verbatim>\<open>filter(callback)\<close>, lines 338-379. A callback is a
  function of the value and the key. \<^verbatim>\<open>this.isArray\<close> reads \<^verbatim>\<open>this.pointer\<close> as the
  previous call left it. The result of \<^verbatim>\<open>map\<close> in place is the instance itself.
\<close>

definition mapInPlaceH ::
  "nat \<Rightarrow> 'b dataStore \<Rightarrow> (jsref \<Rightarrow> string \<Rightarrow> jsref) \<Rightarrow> 'b world
   \<Rightarrow> unit result \<times> 'b dataStore \<times> 'b world" where
  "mapInPlaceH n this callback W =
     (case keysH n this W of
        (Return ks, this1, W1) \<Rightarrow>
          forEachH ks
            (\<lambda>key (this', W').
               case getPropH (heap W') (ds_pointer this') key of
                 Inl e \<Rightarrow> (Throw e, this', W')
               | Inr v \<Rightarrow> setH n this' key (callback v key) W') (this1, W1)
      | (Throw e, this1, W1) \<Rightarrow> (Throw e, this1, W1)
      | (Exhausted, this1, W1) \<Rightarrow> (Exhausted, this1, W1))"

definition mapH ::
  "nat \<Rightarrow> 'b dataStore \<Rightarrow> (jsref \<Rightarrow> string \<Rightarrow> jsref) \<Rightarrow> 'b world
   \<Rightarrow> jsref result \<times> 'b dataStore \<times> 'b world" where
  "mapH n this callback W =
     (let mapped = RObj (length (heap W));
          W0 = W\<lparr>heap := heap W @ [\<lparr>okind = (if isArrayOfH this W then KArray else KObject),
                                     oprops = []\<rparr>]\<rparr>
      in case keysH n this W0 of
           (Return ks, this1, W1) \<Rightarrow>
             (case forEachH ks
                     (\<lambda>key W'.
                        case getPropH (heap W') (ds_pointer this1) key of
                          Inl e \<Rightarrow> (Throw e, W')
                        | Inr v \<Rightarrow> onHeap (assignH mapped key (callback v key)) W') W1 of
                (Return u, W2) \<Rightarrow> (Return mapped, this1, W2)
              | (Throw e, W2) \<Rightarrow> (Throw e, this1, W2)
              | (Exhausted, W2) \<Rightarrow> (Exhausted, this1, W2))
         | (Throw e, this1, W1) \<Rightarrow> (Throw e, this1, W1)
         | (Exhausted, this1, W1) \<Rightarrow> (Exhausted, this1, W1))"

text \<open>
  \<^verbatim>\<open>filtered.push(v)\<close> writes at the index that is the number of elements pushed so far.
\<close>

definition pushH :: "jsref \<Rightarrow> jsref \<Rightarrow> heap \<Rightarrow> unit result \<times> heap" where
  "pushH arr v H = assignH arr (showNat (length (entriesH H arr))) v H"

definition filterH ::
  "nat \<Rightarrow> 'b dataStore \<Rightarrow> (jsref \<Rightarrow> string \<Rightarrow> jsref) \<Rightarrow> 'b world
   \<Rightarrow> jsref result \<times> 'b dataStore \<times> 'b world" where
  "filterH n this callback W =
     (let isArr = isArrayOfH this W;
          filtered = RObj (length (heap W));
          W0 = W\<lparr>heap := heap W @ [\<lparr>okind = (if isArr then KArray else KObject), oprops = []\<rparr>]\<rparr>
      in case keysH n this W0 of
           (Return ks, this1, W1) \<Rightarrow>
             (case forEachH ks
                     (\<lambda>key W'.
                        case getPropH (heap W') (ds_pointer this1) key of
                          Inl e \<Rightarrow> (Throw e, W')
                        | Inr v \<Rightarrow>
                            if \<not> falsyH (callback v key) then
                              (if isArr then onHeap (pushH filtered v) W'
                               else onHeap (assignH filtered key v) W')
                            else (Return (), W')) W1 of
                (Return u, W2) \<Rightarrow> (Return filtered, this1, W2)
              | (Throw e, W2) \<Rightarrow> (Throw e, this1, W2)
              | (Exhausted, W2) \<Rightarrow> (Exhausted, this1, W2))
         | (Throw e, this1, W1) \<Rightarrow> (Throw e, this1, W1)
         | (Exhausted, this1, W1) \<Rightarrow> (Exhausted, this1, W1))"

subsection \<open>Reachability and separation\<close>

text \<open>The objects a value reaches through properties.\<close>

inductive_set reach :: "heap \<Rightarrow> jsref \<Rightarrow> addr set" for H :: heap and v :: jsref where
  root: "v = RObj a \<Longrightarrow> a \<in> reach H v"
| step: "a \<in> reach H v \<Longrightarrow> a < length H \<Longrightarrow> (key, RObj b) \<in> set (oprops (H ! a))
         \<Longrightarrow> b \<in> reach H v"

text \<open>A value is valid in a heap; a heap is closed when every property is valid.\<close>

fun validRef :: "heap \<Rightarrow> jsref \<Rightarrow> bool" where
  "validRef H (RObj a) = (a < length H)"
| "validRef H (RPrim p) = True"

definition closed :: "heap \<Rightarrow> bool" where
  "closed H = (\<forall>a < length H. \<forall>(key, v) \<in> set (oprops (H ! a)). validRef H v)"

text \<open>A value is apart from a root when they reach no object in common.\<close>

definition apart :: "heap \<Rightarrow> jsref \<Rightarrow> jsref \<Rightarrow> bool" where
  "apart H D v = (reach H v \<inter> reach H D = {})"

text \<open>
  The committed root \<open>D\<close> and the working root \<open>A\<close> of a store are separate: both are
  objects of a closed heap and no object belongs to both trees.
\<close>

definition separate :: "heap \<Rightarrow> jsref \<Rightarrow> jsref \<Rightarrow> bool" where
  "separate H D A =
     (closed H \<and> instanceOfObjectH D \<and> instanceOfObjectH A \<and> validRef H D \<and> validRef H A
      \<and> apart H D A)"

text \<open>
  A step from heap \<open>H\<close> to \<open>H'\<close> keeps the tree of a root \<open>D\<close>: no object of the tree is
  changed, the tree reaches what it reached, the heap stays closed, and what was apart
  from the tree still is.
\<close>

definition keeps :: "heap \<Rightarrow> heap \<Rightarrow> jsref \<Rightarrow> bool" where
  "keeps H H' D =
     (length H \<le> length H' \<and> closed H' \<and> reach H' D = reach H D
      \<and> (\<forall>a \<in> reach H D. H' ! a = H ! a)
      \<and> (\<forall>x. validRef H x \<and> apart H D x \<longrightarrow> apart H' D x))"

text \<open>The objects that the properties of an object refer to.\<close>

definition targets :: "obj \<Rightarrow> addr set" where
  "targets ob = {b. \<exists>key. (key, RObj b) \<in> set (oprops ob)}"

subsection \<open>What a walk reads, and what a call leaves\<close>

text \<open>
  The property reads of \<^verbatim>\<open>getPointers()\<close>, lines 239-244: at every name of the path one
  read in the committed node and one in the working node, as long as the walk goes on.
\<close>

fun readsH :: "heap \<Rightarrow> jsref \<times> jsref \<Rightarrow> string list \<Rightarrow> (jsref \<times> string) list" where
  "readsH H (c, w) [] = []"
| "readsH H (c, w) (n # ns) =
     (c, n) # (w, n) #
     (case getPropH H c n of
        Inl e \<Rightarrow> []
      | Inr c' \<Rightarrow> (case getPropH H w n of Inl e \<Rightarrow> [] | Inr w' \<Rightarrow> readsH H (c', w') ns))"

text \<open>
  The outcome of a call on an instance: the instance still has the two roots it had, and
  they are separate in the heap the call leaves; and moreover the call kept the committed
  tree as it was.
\<close>

definition staysSeparate ::
  "'b dataStore \<Rightarrow> 'a result \<times> 'b dataStore \<times> 'b world \<Rightarrow> bool" where
  "staysSeparate this out =
     (case out of (r, this', W') \<Rightarrow>
        ds_data this' = ds_data this \<and> ds_activeData this' = ds_activeData this
        \<and> separate (heap W') (ds_data this) (ds_activeData this))"

definition committedKept ::
  "'b dataStore \<Rightarrow> 'b world \<Rightarrow> 'a result \<times> 'b dataStore \<times> 'b world \<Rightarrow> bool" where
  "committedKept this W out =
     (staysSeparate this out
      \<and> (case out of (r, this', W') \<Rightarrow> keeps (heap W) (heap W') (ds_data this)))"

subsection \<open>A caller\<close>

text \<open>
  A backend that keeps the reference it is given, \<^verbatim>\<open>{save: (id, d) => { kept = d },
  load: id => kept}\<close>, and the heap of a caller that holds the object
  \<^verbatim>\<open>d = {x: {n: 1}}\<close>: \<^verbatim>\<open>d\<close> at address 0 and \<^verbatim>\<open>d.x\<close> at address 1.
\<close>

definition referenceBackendH :: "jsref hbackend" where
  "referenceBackendH =
     \<lparr>hb_save = (\<lambda>i d H kept. (Return (), H, d)), hb_load = (\<lambda>i H kept. (Return kept, H, kept))\<rparr>"

definition callerWorld :: "jsref world" where
  "callerWorld =
     \<lparr>heap = [\<lparr>okind = KObject, oprops = [(''x'', RObj 1)]\<rparr>,
              \<lparr>okind = KObject, oprops = [(''n'', RPrim (PNum 1))]\<rparr>],
      storage = RPrim PUndefined\<rparr>"

text \<open>
  The store \<^verbatim>\<open>new DataStore('id', d, {backend})\<close> of that caller: the heap the constructor
  leaves, and the instance of a namespace of the store with a value of its field
  \<^verbatim>\<open>pointer\<close>.
\<close>

definition builtHeap :: heap where
  "builtHeap =
     [\<lparr>okind = KObject, oprops = [(''x'', RObj 1)]\<rparr>,
      \<lparr>okind = KObject, oprops = [(''n'', RPrim (PNum 1))]\<rparr>,
      \<lparr>okind = KObject, oprops = []\<rparr>,
      \<lparr>okind = KObject, oprops = [(''x'', RObj 4)]\<rparr>,
      \<lparr>okind = KObject, oprops = [(''n'', RPrim (PNum 1))]\<rparr>]"

definition handleAt :: "string list \<Rightarrow> jsref \<Rightarrow> jsref dataStore" where
  "handleAt path p =
     \<lparr>ds_id = ''id'', ds_backend = referenceBackendH, ds_namespace = path,
      ds_data = RObj 0, ds_activeData = RObj 3, ds_pointer = p\<rparr>"

text \<open>
  A second caller holds \<^verbatim>\<open>d = {x: [1]}\<close>, \<^verbatim>\<open>d\<close> at address 0 and the array at address 1,
  and builds the store \<^verbatim>\<open>new DataStore('id', d, {backend})\<close>; the constructor leaves the
  two roots at the addresses 0 and 3 again. \<open>staleHeap\<close> is the heap after
  \<^verbatim>\<open>a = store.ns('x'); store.set('x', {k: 1}); b = store.ns('x')\<close>: the working \<^verbatim>\<open>x\<close> is
  the object at address 6, and the array at address 4 that was the working \<^verbatim>\<open>x\<close> before
  is no longer part of the tree. The callback \<^verbatim>\<open>(v, key) => v\<close> is \<open>keepValue\<close>.
\<close>

definition listWorld :: "jsref world" where
  "listWorld =
     \<lparr>heap = [\<lparr>okind = KObject, oprops = [(''x'', RObj 1)]\<rparr>,
              \<lparr>okind = KArray, oprops = [(''0'', RPrim (PNum 1))]\<rparr>],
      storage = RPrim PUndefined\<rparr>"

definition staleHeap :: heap where
  "staleHeap =
     [\<lparr>okind = KObject, oprops = [(''x'', RObj 1)]\<rparr>,
      \<lparr>okind = KArray, oprops = [(''0'', RPrim (PNum 1))]\<rparr>,
      \<lparr>okind = KObject, oprops = []\<rparr>,
      \<lparr>okind = KObject, oprops = [(''x'', RObj 6)]\<rparr>,
      \<lparr>okind = KArray, oprops = [(''0'', RPrim (PNum 1))]\<rparr>,
      \<lparr>okind = KObject, oprops = []\<rparr>,
      \<lparr>okind = KObject, oprops = [(''k'', RPrim (PNum 1))]\<rparr>,
      \<lparr>okind = KObject, oprops = []\<rparr>]"

definition keepValue :: "jsref \<Rightarrow> string \<Rightarrow> jsref" where
  "keepValue v key = v"

section \<open>Properties\<close>

subsection \<open>Evaluation\<close>

lemmas ev = newDataStore_def loadData_def load_def resetPointer_def reset_def getPointers_def
  get_def has_def keys_def set_value_def unset_def changed_def commit_def commit_node_def
  assign_def deleteKey_def forInKeys_def deepCopy.simps reset_node.simps changed_node.simps
  objectPrototype_def arrayPrototype_def numberPrototype_def booleanPrototype_def
  root_def failingBackend_def backendFactory_def Let_def stringEntries_def

subsection \<open>Numerals and candidate names\<close>

lemma digitChars_inj: "i < 10 \<Longrightarrow> j < 10 \<Longrightarrow> digitChars ! i = digitChars ! j \<Longrightarrow> i = j"
proof -
  assume a: "i < 10" "j < 10" "digitChars ! i = digitChars ! j"
  have d: "distinct digitChars" by (simp add: digitChars_def)
  have l: "length digitChars = 10" by (simp add: digitChars_def)
  from a d l show ?thesis by (simp add: nth_eq_iff_index_eq)
qed

lemma showNat_nonempty: "showNat n \<noteq> []"
  by (subst showNat.simps) simp

lemma showNat_inj: "showNat n = showNat m \<Longrightarrow> n = m"
proof (induction n arbitrary: m rule: showNat.induct)
  case (1 n)
  show ?case
  proof (cases "n < 10")
    case True
    note n = this
    show ?thesis
    proof (cases "m < 10")
      case True
      with n "1.prems" show ?thesis
        by (simp add: showNat.simps [of n] showNat.simps [of m] digitChars_inj)
    next
      case False
      with n "1.prems" showNat_nonempty [of "m div 10"] show ?thesis
        by (simp add: showNat.simps [of n] showNat.simps [of m])
    qed
  next
    case False
    note n = this
    show ?thesis
    proof (cases "m < 10")
      case True
      with n "1.prems" showNat_nonempty [of "n div 10"] show ?thesis
        by (simp add: showNat.simps [of n] showNat.simps [of m])
    next
      case False
      with n "1.prems" have e: "showNat (n div 10) = showNat (m div 10)"
        and d: "digitChars ! (n mod 10) = digitChars ! (m mod 10)"
        by (simp_all add: showNat.simps [of n] showNat.simps [of m])
      from "1.IH" [OF n e] have "n div 10 = m div 10" .
      moreover from d have "n mod 10 = m mod 10" by (simp add: digitChars_inj)
      ultimately show ?thesis by (metis div_mult_mod_eq)
    qed
  qed
qed

lemma candidate_inj: "candidate name sep fc i = candidate name sep fc j \<Longrightarrow> i = j"
  using showNat_nonempty by (auto simp: candidate_def dest: showNat_inj split: if_splits)

subsection \<open>\<^verbatim>\<open>findFreeKey\<close>\<close>

text \<open>
  On a given state \<^verbatim>\<open>has\<close> either throws for every key, or leaves the state alone and
  answers by membership in one finite list of names: the own and the inherited ones.
\<close>

lemma has_shape:
  "(\<forall>key. \<exists>e st'. has h key st = (Inl e, st'))
   \<or> (\<exists>ks. \<forall>key. has h key st = (Inr (key \<in> set ks), st))"
proof (cases "resetPointer h st")
  case (Pair r st')
  show ?thesis
  proof (cases r)
    case (Inl e)
    with Pair show ?thesis by (simp add: has_def)
  next
    case (Inr p)
    show ?thesis
    proof (cases p)
      case (Prim q)
      with Pair Inr show ?thesis by (simp add: has_def)
    next
      case (Node k ps)
      with Pair Inr have "st' = st"
        by (auto simp: resetPointer_def split: if_splits prod.splits option.splits sum.splits)
      with Pair Inr Node
      have "\<forall>key. has h key st = (Inr (key \<in> set (map fst ps @ inherited k)), st)"
        by (simp add: has_def)
      then show ?thesis by blast
    qed
  qed
qed

lemma loop_unfold:
  "findFreeKey_loop h name sep fc i st =
     (case has h (candidate name sep fc (Suc i)) st of
        (Inl e, st') \<Rightarrow> Some (Inl e, st')
      | (Inr b, st') \<Rightarrow>
          if b then findFreeKey_loop h name sep fc (Suc i) st'
          else Some (Inr (candidate name sep fc (Suc i)), st'))"
  by (subst findFreeKey_loop.simps)
    (auto simp: candidate_def Let_def split: prod.splits sum.splits)

lemma loop_least:
  assumes shape: "\<forall>key. has h key st = (Inr (key \<in> set ks), st)"
    and free: "candidate name sep fc n \<notin> set ks"
    and occ: "\<forall>j. i < j \<and> j < n \<longrightarrow> candidate name sep fc j \<in> set ks"
    and lt: "i < n"
  shows "findFreeKey_loop h name sep fc i st = Some (Inr (candidate name sep fc n), st)"
  using occ lt
proof (induction "n - i" arbitrary: i)
  case 0
  then show ?case by simp
next
  case (Suc d)
  show ?case
  proof (cases "Suc i = n")
    case True
    with shape free show ?thesis by (subst loop_unfold) simp
  next
    case False
    with Suc.prems have lt': "Suc i < n" by simp
    with Suc.prems have "candidate name sep fc (Suc i) \<in> set ks" by simp
    moreover have "findFreeKey_loop h name sep fc (Suc i) st
                     = Some (Inr (candidate name sep fc n), st)"
      using Suc.hyps(1) [of "Suc i"] Suc.hyps(2) Suc.prems lt' by simp
    ultimately show ?thesis using shape by (subst loop_unfold) simp
  qed
qed

lemma free_candidate_exists:
  "\<exists>n. i < n \<and> candidate name sep fc n \<notin> set ks"
proof -
  have "finite {j. candidate name sep fc j \<in> set ks}"
  proof -
    have "inj (candidate name sep fc)" by (rule injI) (rule candidate_inj)
    then have "finite (candidate name sep fc -` set ks)" by (simp add: finite_vimageI)
    then show ?thesis by (simp add: vimage_def)
  qed
  then obtain m where m: "\<forall>j\<in>{j. candidate name sep fc j \<in> set ks}. j \<le> m"
    using finite_nat_set_iff_bounded_le by blast
  have "i < Suc (max i m) \<and> candidate name sep fc (Suc (max i m)) \<notin> set ks"
    using m by fastforce
  then show ?thesis by blast
qed

lemma least_free_candidate:
  "\<exists>n. i < n \<and> candidate name sep fc n \<notin> set ks
       \<and> (\<forall>j. i < j \<and> j < n \<longrightarrow> candidate name sep fc j \<in> set ks)"
proof -
  let ?P = "\<lambda>n. i < n \<and> candidate name sep fc n \<notin> set ks"
  from free_candidate_exists obtain n0 where "?P n0" by blast
  then have "?P (LEAST n. ?P n)" by (rule LeastI)
  moreover have "\<forall>j. i < j \<and> j < (LEAST n. ?P n) \<longrightarrow> candidate name sep fc j \<in> set ks"
    using not_less_Least by blast
  ultimately show ?thesis by blast
qed

lemma loop_returns: "\<exists>r. findFreeKey_loop h name sep fc i st = Some r"
proof -
  from has_shape [of h st] show ?thesis
  proof
    assume "\<forall>key. \<exists>e st'. has h key st = (Inl e, st')"
    then obtain e st' where "has h (candidate name sep fc (Suc i)) st = (Inl e, st')" by blast
    then show ?thesis by (subst loop_unfold) simp
  next
    assume "\<exists>ks. \<forall>key. has h key st = (Inr (key \<in> set ks), st)"
    then obtain ks where shape: "\<forall>key. has h key st = (Inr (key \<in> set ks), st)" by blast
    from least_free_candidate [of i name sep fc ks] obtain n where
      "i < n" "candidate name sep fc n \<notin> set ks"
      "\<forall>j. i < j \<and> j < n \<longrightarrow> candidate name sep fc j \<in> set ks" by blast
    with loop_least [OF shape] show ?thesis by blast
  qed
qed

text \<open>
  C10. \<^verbatim>\<open>findFreeKey\<close> returns, with a name or with the exception of \<^verbatim>\<open>has\<close>, for
  every handle, state, base name, separator and value of \<^verbatim>\<open>firstClean\<close>: the candidate
  names are pairwise distinct and only finitely many names are present in a node, so some
  candidate is absent.
\<close>

theorem findFreeKey_terminates:
  "\<exists>r. findFreeKey h name separator firstClean st = Some r"
  unfolding findFreeKey_def by (rule loop_returns)

text \<open>
  C7, as stated, at the store whose working node is \<^verbatim>\<open>{item: ''}\<close>: the suffix \<open>1\<close> is
  free, yet \<^verbatim>\<open>findFreeKey('item', undefined, true)\<close> answers \<^verbatim>\<open>item2\<close>. The bare name
  takes round 1, so the first suffixed candidate carries the number 2.
\<close>

theorem findFreeKey_firstClean_counterexample:
  "findFreeKey (root failingBackend) ''item'' None True
     \<lparr>data = Node KObject [], activeData = Node KObject [(''item'', Prim (PStr ''''))],
      backing = ()\<rparr>
   = Some (Inr ''item2'',
       \<lparr>data = Node KObject [], activeData = Node KObject [(''item'', Prim (PStr ''''))],
        backing = ()\<rparr>)
   \<and> fst (has (root failingBackend) ''item1''
       \<lparr>data = Node KObject [], activeData = Node KObject [(''item'', Prim (PStr ''''))],
        backing = ()\<rparr>) = Inr False"
  by (simp add: findFreeKey_def loop_unfold candidate_def showNat.simps digitChars_def ev)

text \<open>
  C7, amended. When the bare base name is present in the working node,
  \<^verbatim>\<open>findFreeKey(baseName, separator, true)\<close> returns the suffixed candidate with the least
  number \<open>n \<ge> 2\<close> that is not present: every candidate numbered from 2 up to \<open>n - 1\<close> is
  present, and the suffix 1 is never tried.
\<close>

theorem findFreeKey_firstClean_occupied:
  assumes "has h name st = (Inr True, st)"
  shows "\<exists>n\<ge>2. findFreeKey h name separator True st
                  = Some (Inr (name @ (case separator of Some s \<Rightarrow> s | None \<Rightarrow> []) @ showNat n), st)
            \<and> has h (name @ (case separator of Some s \<Rightarrow> s | None \<Rightarrow> []) @ showNat n) st
                = (Inr False, st)
            \<and> (\<forall>j. 2 \<le> j \<and> j < n \<longrightarrow>
                 has h (name @ (case separator of Some s \<Rightarrow> s | None \<Rightarrow> []) @ showNat j) st
                   = (Inr True, st))"
proof -
  let ?sep = "case separator of Some s \<Rightarrow> s | None \<Rightarrow> []"
  have "\<not> (\<forall>key. \<exists>e st'. has h key st = (Inl e, st'))"
    using assms by (auto intro!: exI [of _ name])
  with has_shape [of h st] obtain ks where
    shape: "\<forall>key. has h key st = (Inr (key \<in> set ks), st)" by blast
  from shape assms have bare: "candidate name ?sep True 1 \<in> set ks"
    by (simp add: candidate_def)
  from least_free_candidate [of 0 name ?sep True ks] obtain n where
    n: "0 < n" "candidate name ?sep True n \<notin> set ks"
       "\<forall>j. 0 < j \<and> j < n \<longrightarrow> candidate name ?sep True j \<in> set ks" by blast
  from n bare have n2: "2 \<le> n" by (cases "n = 1") auto
  have cand: "candidate name ?sep True j = name @ ?sep @ showNat j" if "2 \<le> j" for j
    using that by (simp add: candidate_def)
  from loop_least [OF shape n(2) n(3) n(1)]
  have r: "findFreeKey h name separator True st = Some (Inr (name @ ?sep @ showNat n), st)"
    by (simp add: findFreeKey_def cand [OF n2])
  have f: "has h (name @ ?sep @ showNat n) st = (Inr False, st)"
    using shape n(2) by (simp add: cand [OF n2])
  have o: "has h (name @ ?sep @ showNat j) st = (Inr True, st)" if "2 \<le> j \<and> j < n" for j
  proof -
    from that have "0 < j \<and> j < n" by simp
    with n(3) have "candidate name ?sep True j \<in> set ks" by blast
    with that shape show ?thesis by (simp add: cand)
  qed
  from n2 r f o show ?thesis by blast
qed

theorem findFreeKey_firstClean_occupied_witness:
  "has (root failingBackend) ''item''
     \<lparr>data = Node KObject [], activeData = Node KObject [(''item'', Prim (PStr ''''))],
      backing = ()\<rparr>
   = (Inr True,
      \<lparr>data = Node KObject [], activeData = Node KObject [(''item'', Prim (PStr ''''))],
       backing = ()\<rparr>)
   \<and> (\<exists>n\<ge>2. findFreeKey (root failingBackend) ''item'' (Some ''-'') True
         \<lparr>data = Node KObject [], activeData = Node KObject [(''item'', Prim (PStr ''''))],
          backing = ()\<rparr>
       = Some (Inr (''item-'' @ showNat n),
           \<lparr>data = Node KObject [], activeData = Node KObject [(''item'', Prim (PStr ''''))],
            backing = ()\<rparr>))"
proof -
  have h: "has (root failingBackend) ''item''
     \<lparr>data = Node KObject [], activeData = Node KObject [(''item'', Prim (PStr ''''))],
      backing = ()\<rparr>
   = (Inr True,
      \<lparr>data = Node KObject [], activeData = Node KObject [(''item'', Prim (PStr ''''))],
       backing = ()\<rparr>)"
    by (simp add: ev)
  from findFreeKey_firstClean_occupied [OF h, of "Some ''-''"] h show ?thesis
    by auto
qed

subsection \<open>Property lists and loops\<close>


lemma upd_same: "map_of ps key = Some v \<Longrightarrow> upd ps key v = ps"
  by (induction ps) (auto split: if_splits)




lemma wf_map_of: "wf (Node k ps) \<Longrightarrow> (key, v) \<in> set ps \<Longrightarrow> map_of ps key = Some v"
  by simp



subsection \<open>Copying a well-formed node gives the node\<close>



subsection \<open>The fold of \<^verbatim>\<open>commit\<close> on well-formed nodes\<close>







subsection \<open>\<^verbatim>\<open>reset\<close> keeps the shape of the working node\<close>









subsection \<open>A second \<^verbatim>\<open>reset\<close> finds every key settled\<close>










subsection \<open>Resolving pointers after a node was replaced\<close>










lemma updateAt_same_c: "getPointers_loop (d, a) p = Inr (c, w) \<Longrightarrow> updateAt d p c = d"
proof (induction p arbitrary: d a)
  case Nil
  then show ?case by simp
next
  case (Cons n ns)
  from Cons.prems(1) obtain d' a' where gd: "getProp d n = Inr d'" and ga: "getProp a n = Inr a'"
    and r: "getPointers_loop (d', a') ns = Inr (c, w)"
    by (auto split: sum.splits)
  show ?case
  proof (cases d)
    case (Prim q)
    then show ?thesis by simp
  next
    case (Node k ps)
    show ?thesis
    proof (cases "map_of ps n")
      case None
      with Node show ?thesis by simp
    next
      case (Some x)
      with Node gd have "d' = x" by simp
      with r Cons.IH [of x a'] have "updateAt x ns c = x" by simp
      with Node Some show ?thesis by (simp add: upd_same)
    qed
  qed
qed




text \<open>
  C1, evaluated. A store is built from \<^verbatim>\<open>{a: undefined}\<close>; then \<^verbatim>\<open>unset('a')\<close> and
  \<^verbatim>\<open>set('b', undefined)\<close>. The working node has the key \<^verbatim>\<open>b\<close> and not \<^verbatim>\<open>a\<close>, the
  committed node the key \<^verbatim>\<open>a\<close> and not \<^verbatim>\<open>b\<close>; the key counts agree, the missing key
  reads as \<^verbatim>\<open>undefined\<close> like the committed value, and \<^verbatim>\<open>changed()\<close> is \<^verbatim>\<open>false\<close>.
\<close>

theorem changed_misses_replaced_key:
  "newDataStore ''data'' (Node KObject [(''a'', Prim PUndefined)]) failingBackend ()
     = (root failingBackend,
        \<lparr>data = Node KObject [(''a'', Prim PUndefined)],
         activeData = Node KObject [(''a'', Prim PUndefined)], backing = ()\<rparr>, None)
   \<and> unset (root failingBackend) ''a''
        \<lparr>data = Node KObject [(''a'', Prim PUndefined)],
         activeData = Node KObject [(''a'', Prim PUndefined)], backing = ()\<rparr>
     = (\<lparr>data = Node KObject [(''a'', Prim PUndefined)],
         activeData = Node KObject [], backing = ()\<rparr>, None)
   \<and> set_value (root failingBackend) ''b'' (Prim PUndefined)
        \<lparr>data = Node KObject [(''a'', Prim PUndefined)],
         activeData = Node KObject [], backing = ()\<rparr>
     = (\<lparr>data = Node KObject [(''a'', Prim PUndefined)],
         activeData = Node KObject [(''b'', Prim PUndefined)], backing = ()\<rparr>, None)
   \<and> changed (root failingBackend)
        \<lparr>data = Node KObject [(''a'', Prim PUndefined)],
         activeData = Node KObject [(''b'', Prim PUndefined)], backing = ()\<rparr> = Inr False"
  by (simp add: ev)

text \<open>
  C4, evaluated. A store is built from \<^verbatim>\<open>{a: {}}\<close>; then \<^verbatim>\<open>set('a', 5)\<close> and
  \<^verbatim>\<open>reset()\<close>. The test of line 175 takes the number for a working copy of the object
  and recurses into it; \<^verbatim>\<open>reset()\<close> returns with \<^verbatim>\<open>a\<close> still 5, and \<^verbatim>\<open>changed()\<close>
  is \<^verbatim>\<open>true\<close> afterwards.
\<close>

theorem reset_keeps_primitive_over_composite:
  "newDataStore ''data'' (Node KObject [(''a'', Node KObject [])]) failingBackend ()
     = (root failingBackend,
        \<lparr>data = Node KObject [(''a'', Node KObject [])],
         activeData = Node KObject [(''a'', Node KObject [])], backing = ()\<rparr>, None)
   \<and> set_value (root failingBackend) ''a'' (Prim (PNum 5))
        \<lparr>data = Node KObject [(''a'', Node KObject [])],
         activeData = Node KObject [(''a'', Node KObject [])], backing = ()\<rparr>
     = (\<lparr>data = Node KObject [(''a'', Node KObject [])],
         activeData = Node KObject [(''a'', Prim (PNum 5))], backing = ()\<rparr>, None)
   \<and> reset (root failingBackend)
        \<lparr>data = Node KObject [(''a'', Node KObject [])],
         activeData = Node KObject [(''a'', Prim (PNum 5))], backing = ()\<rparr>
     = (\<lparr>data = Node KObject [(''a'', Node KObject [])],
         activeData = Node KObject [(''a'', Prim (PNum 5))], backing = ()\<rparr>, None)
   \<and> changed (root failingBackend)
        \<lparr>data = Node KObject [(''a'', Node KObject [])],
         activeData = Node KObject [(''a'', Prim (PNum 5))], backing = ()\<rparr> = Inr True"
  by (simp add: ev)

text \<open>
  C8, evaluated. In a store built from \<^verbatim>\<open>{list: []}\<close>, \<^verbatim>\<open>has('toString')\<close> is
  \<^verbatim>\<open>true\<close> at the root although \<^verbatim>\<open>keys()\<close> is \<^verbatim>\<open>['list']\<close>, and
  \<^verbatim>\<open>has('length')\<close> is \<^verbatim>\<open>true\<close> in the namespace \<^verbatim>\<open>list\<close> although \<^verbatim>\<open>keys()\<close>
  is empty there: \<^verbatim>\<open>in\<close> also finds inherited and non-enumerable names.
\<close>

theorem has_finds_inherited_names:
  "newDataStore ''data'' (Node KObject [(''list'', Node KArray [])]) failingBackend ()
     = (root failingBackend,
        \<lparr>data = Node KObject [(''list'', Node KArray [])],
         activeData = Node KObject [(''list'', Node KArray [])], backing = ()\<rparr>, None)
   \<and> fst (has (root failingBackend) ''toString''
        \<lparr>data = Node KObject [(''list'', Node KArray [])],
         activeData = Node KObject [(''list'', Node KArray [])], backing = ()\<rparr>) = Inr True
   \<and> fst (keys (root failingBackend)
        \<lparr>data = Node KObject [(''list'', Node KArray [])],
         activeData = Node KObject [(''list'', Node KArray [])], backing = ()\<rparr>) = Inr (Node KArray [(''0'', Prim (PStr ''list''))])
   \<and> fst (has ((root failingBackend)\<lparr>namespace := [''list'']\<rparr>) ''length''
        \<lparr>data = Node KObject [(''list'', Node KArray [])],
         activeData = Node KObject [(''list'', Node KArray [])], backing = ()\<rparr>) = Inr True
   \<and> fst (keys ((root failingBackend)\<lparr>namespace := [''list'']\<rparr>)
        \<lparr>data = Node KObject [(''list'', Node KArray [])],
         activeData = Node KObject [(''list'', Node KArray [])], backing = ()\<rparr>) = Inr (Node KArray [])"
  by (simp add: ev indexKeys_def ownKeys_def arrayOf_def isArrayIndex_def digitChars_def
      showNat.simps)

subsection \<open>\<^verbatim>\<open>keys()\<close> on examples\<close>

text \<open>
  In a store built from \<^verbatim>\<open>{list: [1, 2, 3], map: {}}\<close>: after \<^verbatim>\<open>unset('1')\<close> in the
  namespace \<^verbatim>\<open>list\<close>, \<^verbatim>\<open>keys()\<close> is the array with 0 at index 0, a hole at index 1 and 2
  at index 2; after \<^verbatim>\<open>set('b', 1)\<close> and \<^verbatim>\<open>set('0', 2)\<close> in the namespace \<^verbatim>\<open>map\<close>,
  \<^verbatim>\<open>keys()\<close> is \<^verbatim>\<open>['0', 'b']\<close>.
\<close>

lemma keys_of_array_with_hole:
  "fst (keys ((root failingBackend)\<lparr>namespace := [''list'']\<rparr>)
     (fst (unset ((root failingBackend)\<lparr>namespace := [''list'']\<rparr>) ''1''
        \<lparr>data = Node KObject [(''list'', Node KArray [(''0'', Prim (PNum 1)), (''1'', Prim (PNum 2)),
                                                       (''2'', Prim (PNum 3))])],
         activeData = Node KObject [(''list'', Node KArray [(''0'', Prim (PNum 1)), (''1'', Prim (PNum 2)),
                                                             (''2'', Prim (PNum 3))])],
         backing = ()\<rparr>)))
   = Inr (Node KArray [(''0'', Prim (PNum 0)), (''2'', Prim (PNum 2))])"
  by (simp add: ev indexKeys_def isArrayIndex_def digitChars_def digitVal_def readNat_def
      showNat.simps)

lemma keys_of_object_with_index_name:
  "fst (keys ((root failingBackend)\<lparr>namespace := [''map'']\<rparr>)
     (fst (set_value ((root failingBackend)\<lparr>namespace := [''map'']\<rparr>) ''0'' (Prim (PNum 2))
        (fst (set_value ((root failingBackend)\<lparr>namespace := [''map'']\<rparr>) ''b'' (Prim (PNum 1))
           \<lparr>data = Node KObject [(''map'', Node KObject [])],
            activeData = Node KObject [(''map'', Node KObject [])], backing = ()\<rparr>)))))
   = Inr (Node KArray [(''0'', Prim (PStr ''0'')), (''1'', Prim (PStr ''b''))])"
  by (simp add: ev indexKeys_def ownKeys_def arrayOf_def isArrayIndex_def digitChars_def
      digitVal_def readNat_def showNat.simps)

subsection \<open>Deep-equal trees answer alike\<close>

lemma treeEq_Node_left: "treeEq ord (Node k ps) b \<Longrightarrow> \<exists>qs. b = Node k qs"
  by (cases b) auto

lemma treeEq_Prim_left: "treeEq ord (Prim p) b \<Longrightarrow> b = Prim p"
  by (cases b) auto







subsection \<open>The names \<^verbatim>\<open>keys()\<close> lists\<close>








lemma orderedEq_deepEq: "orderedEq a b \<Longrightarrow> deepEq a b"
proof (induction a arbitrary: b rule: measure_induct_rule [where f = size])
  case (less a)
  show ?case
  proof (cases a)
    case (Prim p)
    with less.prems show ?thesis by (auto dest: treeEq_Prim_left)
  next
    case (Node k ps)
    with less.prems obtain qs where b: "b = Node k qs" by (auto dest: treeEq_Node_left)
    have "case map_of qs key of Some v' \<Rightarrow> deepEq v v' | None \<Rightarrow> False"
      if m: "(key, v) \<in> set ps" for key v
    proof -
      from less.prems Node b m obtain v' where v': "map_of qs key = Some v'" "orderedEq v v'"
        by (auto simp: list_all_iff split: option.splits)
      from m have "size v < size (Node k ps)" by (rule size_child)
      with Node have "size v < size a" by simp
      from less.IH [OF this v'(2)] v'(1) show ?thesis by simp
    qed
    with less.prems Node b show ?thesis by (auto simp: list_all_iff)
  qed
qed







section \<open>Properties of the store on the heap\<close>

subsection \<open>Reading and writing properties\<close>

lemma map_of_updH: "map_of (updH ps key v) key' = (if key' = key then Some v else map_of ps key')"
  by (induction ps) auto

lemma putPropH_cases:
  assumes "putPropH H x key v = Inr H'"
  obtains p where "x = RObj p" "p < length H"
    "\<not> (key = ''__proto__'' \<or> (okind (H ! p) = KArray \<and> key = ''length''))"
    "H' = H[p := (H ! p)\<lparr>oprops := updH (oprops (H ! p)) key v\<rparr>]"
  using assms by (cases x) (auto split: if_splits)

lemma getPropH_put_same:
  assumes "putPropH H x key v = Inr H'"
  shows "getPropH H' x key = Inr v"
proof -
  from assms(1) obtain p where p: "x = RObj p" "p < length H"
    "H' = H[p := (H ! p)\<lparr>oprops := updH (oprops (H ! p)) key v\<rparr>]"
    by (rule putPropH_cases)
  then show ?thesis by (simp add: map_of_updH)
qed

lemma nsH_fields:
  assumes "\<not> falsyH (ds_data s)" "\<not> falsyH (ds_activeData s)"
    and "nsH n s x W = (Return (), a, W1)"
  shows "ds_namespace a = ds_namespace s @ [x] \<and> ds_data a = ds_data s
         \<and> ds_activeData a = ds_activeData s \<and> ds_id a = ds_id s \<and> ds_backend a = ds_backend s"
  using assms
  by (auto simp: nsH_def nsWith_def constructWith_def loadDataWith_def resetPointerWith_def Let_def
      split: sum.splits prod.splits)

lemma getH_truthy:
  assumes "\<not> falsyH (ds_activeData this)"
  shows "getH n this key W =
     (case getPointersH this (heap W) of
        Inl e \<Rightarrow> (Throw e, this, W)
      | Inr (c, w) \<Rightarrow>
          (case getPropH (heap W) w key of
             Inl e \<Rightarrow> (Throw e, this\<lparr>ds_pointer := w\<rparr>, W)
           | Inr v \<Rightarrow> (Return v, this\<lparr>ds_pointer := w\<rparr>, W)))"
  using assms by (auto simp: getH_def resetPointerH_def resetPointerWith_def split: sum.splits)

lemma setH_truthy:
  assumes "\<not> falsyH (ds_activeData this)"
  shows "setH n this key v W =
     (case getPointersH this (heap W) of
        Inl e \<Rightarrow> (Throw e, this, W)
      | Inr (c, w) \<Rightarrow>
          (case putPropH (heap W) w key v of
             Inl e \<Rightarrow> (Throw e, this\<lparr>ds_pointer := w\<rparr>, W)
           | Inr H' \<Rightarrow> (Return (), this\<lparr>ds_pointer := w\<rparr>, W\<lparr>heap := H'\<rparr>)))"
  using assms
  by (auto simp: setH_def resetPointerH_def resetPointerWith_def onHeap_def assignH_def
      split: sum.splits)

lemma getPointersH_same_fields:
  "ds_data a = ds_data b \<Longrightarrow> ds_activeData a = ds_activeData b \<Longrightarrow>
   ds_namespace a = ds_namespace b \<Longrightarrow> getPointersH a H = getPointersH b H"
  by (simp add: getPointersH_def)

subsection \<open>Reachability\<close>

lemma reach_RPrim [simp]: "reach H (RPrim p) = {}"
proof -
  have "a \<notin> reach H (RPrim p)" for a
  proof
    assume "a \<in> reach H (RPrim p)"
    then show False by (induction rule: reach.induct) simp
  qed
  then show ?thesis by blast
qed

lemma reach_sub: "a \<in> reach H v \<Longrightarrow> reach H (RObj a) \<subseteq> reach H v"
proof
  fix b
  assume a: "a \<in> reach H v" and "b \<in> reach H (RObj a)"
  from this(2) a show "b \<in> reach H v"
    by (induction rule: reach.induct) (auto intro: reach.step)
qed

lemma closed_prop:
  "closed H \<Longrightarrow> a < length H \<Longrightarrow> (key, v) \<in> set (oprops (H ! a)) \<Longrightarrow> validRef H v"
  by (auto simp: closed_def)

lemma reach_valid: "closed H \<Longrightarrow> validRef H v \<Longrightarrow> a \<in> reach H v \<Longrightarrow> a < length H"
proof -
  assume c: "closed H" and v: "validRef H v" and a: "a \<in> reach H v"
  from a show ?thesis
  proof (induction rule: reach.induct)
    case (root a)
    with v show ?case by simp
  next
    case (step a key b)
    with c closed_prop [of H a key "RObj b"] show ?case by simp
  qed
qed

lemma reach_same_objects:
  assumes "\<And>a. a \<in> reach H v \<Longrightarrow>
             (a < length H \<longleftrightarrow> a < length H') \<and> (a < length H \<longrightarrow> H' ! a = H ! a)"
  shows "reach H' v = reach H v"
proof
  show "reach H' v \<subseteq> reach H v"
  proof
    fix b assume "b \<in> reach H' v"
    then show "b \<in> reach H v"
    proof (induction rule: reach.induct)
      case (root a)
      then show ?case by (rule reach.root)
    next
      case (step a key b)
      with assms [of a] show ?case by (auto intro: reach.step)
    qed
  qed
  show "reach H v \<subseteq> reach H' v"
  proof
    fix b assume "b \<in> reach H v"
    then show "b \<in> reach H' v"
    proof (induction rule: reach.induct)
      case (root a)
      then show ?case by (rule reach.root)
    next
      case (step a key b)
      with assms [of a] show ?case by (auto intro: reach.step)
    qed
  qed
qed

lemma reach_update_subset:
  assumes "p < length H"
  shows "reach (H[p := ob]) v \<subseteq> reach H v \<union> (\<Union>b \<in> targets ob. reach H (RObj b))"
proof
  fix x assume "x \<in> reach (H[p := ob]) v"
  then show "x \<in> reach H v \<union> (\<Union>b \<in> targets ob. reach H (RObj b))"
  proof (induction rule: reach.induct)
    case (root a)
    then show ?case by (auto intro: reach.root)
  next
    case (step a key b)
    show ?case
    proof (cases "a = p")
      case True
      with step assms have "b \<in> targets ob" by (auto simp: targets_def)
      then show ?thesis by (auto intro: reach.root)
    next
      case False
      with step have pr: "(key, RObj b) \<in> set (oprops (H ! a))" and l: "a < length H" by simp_all
      from step.IH show ?thesis
      proof
        assume "a \<in> reach H v"
        with pr l show ?thesis by (auto intro: reach.step)
      next
        assume "a \<in> (\<Union>b \<in> targets ob. reach H (RObj b))"
        then obtain t where "t \<in> targets ob" "a \<in> reach H (RObj t)" by blast
        with pr l have "b \<in> reach H (RObj t)" by (auto intro: reach.step)
        with \<open>t \<in> targets ob\<close> show ?thesis by blast
      qed
    qed
  qed
qed

lemma apart_RPrim [simp]: "apart H D (RPrim p)"
  by (simp add: apart_def)

lemma apart_sub: "apart H D x \<Longrightarrow> reach H y \<subseteq> reach H x \<Longrightarrow> apart H D y"
  by (auto simp: apart_def)

lemma apart_sym: "apart H D x \<Longrightarrow> apart H x D"
  by (auto simp: apart_def)

lemma keeps_refl: "closed H \<Longrightarrow> keeps H H D"
  by (simp add: keeps_def)

lemma validRef_mono: "validRef H x \<Longrightarrow> length H \<le> length H' \<Longrightarrow> validRef H' x"
  by (cases x) auto

lemma keeps_trans: "keeps H H1 D \<Longrightarrow> keeps H1 H2 D \<Longrightarrow> keeps H H2 D"
  unfolding keeps_def by (auto dest: validRef_mono)

lemma keeps_closed: "keeps H H' D \<Longrightarrow> closed H'"
  by (simp add: keeps_def)

lemma keeps_valid: "keeps H H' D \<Longrightarrow> validRef H x \<Longrightarrow> validRef H' x"
  by (auto simp: keeps_def dest: validRef_mono)

lemma keeps_apart: "keeps H H' D \<Longrightarrow> validRef H x \<Longrightarrow> apart H D x \<Longrightarrow> apart H' D x"
  by (simp add: keeps_def)

lemma values_updH: "(k, x) \<in> set (updH ps key v) \<Longrightarrow> (k, x) \<in> set ps \<or> x = v"
  by (induction ps) (auto split: if_splits)

lemma closed_update:
  assumes "closed H" "p < length H"
    and "\<And>key x. (key, x) \<in> set (oprops ob) \<Longrightarrow> validRef H x"
  shows "closed (H[p := ob])"
  unfolding closed_def
proof (intro allI impI ballI)
  fix a kv
  assume a: "a < length (H[p := ob])" and m: "kv \<in> set (oprops (H[p := ob] ! a))"
  obtain key x where kv: "kv = (key, x)" by (cases kv)
  have "validRef H x"
  proof (cases "a = p")
    case True
    with m kv assms(2,3) show ?thesis by simp
  next
    case False
    with m kv a assms(1) show ?thesis by (auto dest: closed_prop)
  qed
  then have "validRef (H[p := ob]) x" by (rule validRef_mono) simp
  with kv show "case kv of (key, v) \<Rightarrow> validRef (H[p := ob]) v" by simp
qed

lemma keeps_update:
  assumes c: "closed H" and p: "p < length H" and ap: "apart H D (RObj p)"
    and val: "\<And>key x. (key, x) \<in> set (oprops ob) \<Longrightarrow> validRef H x"
    and tg: "\<And>b. b \<in> targets ob \<Longrightarrow> b \<in> targets (H ! p) \<or> apart H D (RObj b)"
  shows "keeps H (H[p := ob]) D"
proof -
  let ?H' = "H[p := ob]"
  have pn: "p \<notin> reach H D" using ap by (auto simp: apart_def intro: reach.root)
  have cl: "closed ?H'" using c p val by (rule closed_update)
  have same: "?H' ! a = H ! a" if "a \<in> reach H D" for a using that pn by (cases "a = p") auto
  have tap: "apart H D (RObj b)" if "b \<in> targets ob" for b
  proof -
    from tg [OF that] show ?thesis
    proof
      assume "b \<in> targets (H ! p)"
      then have "b \<in> reach H (RObj p)" using p by (auto simp: targets_def intro: reach.step reach.root)
      then have "reach H (RObj b) \<subseteq> reach H (RObj p)" by (rule reach_sub)
      with ap show ?thesis by (rule apart_sub)
    qed
  qed
  have rD: "reach ?H' D = reach H D"
    by (rule reach_same_objects) (simp add: same)
  have pres: "apart ?H' D x" if "apart H D x" for x
  proof -
    have "reach ?H' x \<subseteq> reach H x \<union> (\<Union>b \<in> targets ob. reach H (RObj b))"
      using p by (rule reach_update_subset)
    moreover have "reach H x \<inter> reach H D = {}" using that by (simp add: apart_def)
    moreover have "(\<Union>b \<in> targets ob. reach H (RObj b)) \<inter> reach H D = {}"
      using tap by (auto simp: apart_def)
    ultimately show ?thesis unfolding apart_def rD by blast
  qed
  from cl rD same pres show ?thesis by (simp add: keeps_def)
qed

lemma keeps_put:
  assumes "closed H" "putPropH H x key v = Inr H'" "apart H D x" "validRef H v" "apart H D v"
  shows "keeps H H' D"
proof -
  from assms(2) obtain p where p: "x = RObj p" "p < length H"
    "H' = H[p := (H ! p)\<lparr>oprops := updH (oprops (H ! p)) key v\<rparr>]"
    by (rule putPropH_cases)
  let ?ob = "(H ! p)\<lparr>oprops := updH (oprops (H ! p)) key v\<rparr>"
  have "keeps H (H[p := ?ob]) D"
  proof (rule keeps_update)
    show "closed H" by fact
    show "p < length H" by fact
    show "apart H D (RObj p)" using assms(3) p by simp
    show "validRef H y" if "(k, y) \<in> set (oprops ?ob)" for k y
      using that assms(1,4) p(2) by (auto dest: values_updH closed_prop)
    show "b \<in> targets (H ! p) \<or> apart H D (RObj b)" if "b \<in> targets ?ob" for b
      using that assms(5) by (auto simp: targets_def dest!: values_updH)
  qed
  with p show ?thesis by simp
qed

lemma delPropH_cases:
  assumes "delPropH H x key = Inr H'"
  obtains "H' = H"
  | p where "x = RObj p" "p < length H"
      "H' = H[p := (H ! p)\<lparr>oprops := filter (\<lambda>(k', x). k' \<noteq> key) (oprops (H ! p))\<rparr>]"
  using assms by (cases x) (auto split: if_splits sum.splits)

lemma keeps_del:
  assumes "closed H" "delPropH H x key = Inr H'" "apart H D x"
  shows "keeps H H' D"
  using assms(2)
proof (cases rule: delPropH_cases)
  case 1
  with assms(1) show ?thesis by (simp add: keeps_refl)
next
  case (2 p)
  let ?ob = "(H ! p)\<lparr>oprops := filter (\<lambda>(k', x). k' \<noteq> key) (oprops (H ! p))\<rparr>"
  have "keeps H (H[p := ?ob]) D"
  proof (rule keeps_update)
    show "closed H" by fact
    show "p < length H" by fact
    show "apart H D (RObj p)" using assms(3) 2 by simp
    show "validRef H y" if "(k, y) \<in> set (oprops ?ob)" for k y
      using that assms(1) 2(2) by (auto dest: closed_prop)
    show "b \<in> targets (H ! p) \<or> apart H D (RObj b)" if "b \<in> targets ?ob" for b
      using that by (auto simp: targets_def)
  qed
  with 2 show ?thesis by simp
qed

lemma keeps_alloc:
  assumes "closed H" "validRef H D"
  shows "keeps H (H @ [\<lparr>okind = k, oprops = []\<rparr>]) D
         \<and> apart (H @ [\<lparr>okind = k, oprops = []\<rparr>]) D (RObj (length H))"
proof -
  let ?H' = "H @ [\<lparr>okind = k, oprops = []\<rparr>]"
  have same: "reach ?H' x = reach H x" if "validRef H x" for x
  proof (rule reach_same_objects)
    fix a assume "a \<in> reach H x"
    with assms(1) that have "a < length H" by (rule reach_valid)
    then show "(a < length H \<longleftrightarrow> a < length ?H') \<and> (a < length H \<longrightarrow> ?H' ! a = H ! a)"
      by (simp add: nth_append)
  qed
  have cl: "closed ?H'"
    unfolding closed_def
  proof (intro allI impI ballI)
    fix a kv
    assume a: "a < length ?H'" and m: "kv \<in> set (oprops (?H' ! a))"
    obtain key x where kv: "kv = (key, x)" by (cases kv)
    from a m have al: "a < length H" by (cases "a = length H") (auto simp: nth_append)
    with m kv have "(key, x) \<in> set (oprops (H ! a))" by (simp add: nth_append)
    with assms(1) al have "validRef H x" by (rule closed_prop)
    then have "validRef ?H' x" by (rule validRef_mono) simp
    with kv show "case kv of (key, v) \<Rightarrow> validRef ?H' v" by simp
  qed
  have un: "?H' ! a = H ! a" if "a \<in> reach H D" for a
    using reach_valid [OF assms that] by (simp add: nth_append)
  have k: "keeps H ?H' D"
    using cl same [OF assms(2)] un same by (simp add: keeps_def apart_def)
  have "reach ?H' (RObj (length H)) = {length H}"
  proof
    show "reach ?H' (RObj (length H)) \<subseteq> {length H}"
    proof
      fix b assume "b \<in> reach ?H' (RObj (length H))"
      then show "b \<in> {length H}" by (induction rule: reach.induct) auto
    qed
    show "{length H} \<subseteq> reach ?H' (RObj (length H))" by (auto intro: reach.root)
  qed
  moreover have "length H \<notin> reach ?H' D"
    using same [OF assms(2)] reach_valid [OF assms, of "length H"] by auto
  ultimately have "apart ?H' D (RObj (length H))" by (simp add: apart_def)
  with k show ?thesis by simp
qed

lemma getPropH_valid:
  assumes "closed H" "getPropH H r n = Inr r'"
  shows "validRef H r' \<and> reach H r' \<subseteq> reach H r"
proof (cases r)
  case (RPrim q)
  with assms(2) obtain v where "getProp (Prim q) n = Inr v" "r' = toRef v"
    by (auto split: sum.splits)
  then have "\<exists>q'. r' = RPrim q'" by (cases v) auto
  then show ?thesis by auto
next
  case (RObj a)
  show ?thesis
  proof (cases r')
    case (RPrim q)
    then show ?thesis by simp
  next
    case r': (RObj b)
    with assms(2) RObj have a: "a < length H" and "map_of (oprops (H ! a)) n = Some (RObj b)"
      by (auto split: if_splits option.splits)
    then have m: "(n, RObj b) \<in> set (oprops (H ! a))" by (auto dest: map_of_SomeD)
    with assms(1) a have "validRef H (RObj b)" by (rule closed_prop)
    moreover from a m have "b \<in> reach H (RObj a)" by (auto intro: reach.step reach.root)
    then have "reach H (RObj b) \<subseteq> reach H (RObj a)" by (rule reach_sub)
    ultimately show ?thesis using RObj r' by simp
  qed
qed

lemma getPointersH_loop_valid:
  assumes "closed H" "getPointersH_loop H (c0, w0) path = Inr (c, w)"
  shows "(validRef H c0 \<longrightarrow> validRef H c) \<and> (validRef H w0 \<longrightarrow> validRef H w)
         \<and> reach H c \<subseteq> reach H c0 \<and> reach H w \<subseteq> reach H w0"
  using assms(2)
proof (induction path arbitrary: c0 w0)
  case Nil
  then show ?case by simp
next
  case (Cons n ns)
  from Cons.prems obtain c1 w1 where g: "getPropH H c0 n = Inr c1" "getPropH H w0 n = Inr w1"
    and r: "getPointersH_loop H (c1, w1) ns = Inr (c, w)"
    by (auto split: sum.splits)
  from getPropH_valid [OF assms(1) g(1)] getPropH_valid [OF assms(1) g(2)] Cons.IH [OF r]
  show ?case by auto
qed

lemma forEachH_inv:
  assumes "I s" and "\<And>x a a' r. x \<in> set xs \<Longrightarrow> I a \<Longrightarrow> f x a = (r, a') \<Longrightarrow> I a'"
    and "forEachH xs f s = (r, s')"
  shows "I s'"
  using assms
proof (induction xs arbitrary: s)
  case Nil
  then show ?case by simp
next
  case (Cons x xs)
  obtain q a where fx: "f x s = (q, a)" by (cases "f x s")
  with Cons.prems(1,2) have Ia: "I a" by (meson list.set_intros(1))
  show ?case
  proof (cases q)
    case (Return u)
    with fx Cons.prems(3) have "forEachH xs f a = (r, s')" by simp
    with Cons.IH [OF Ia] Cons.prems(2) show ?thesis by (meson list.set_intros(2))
  next
    case (Throw e)
    with fx Cons.prems(3) Ia show ?thesis by simp
  next
    case Exhausted
    with fx Cons.prems(3) Ia show ?thesis by simp
  qed
qed

subsection \<open>Statements that keep a tree\<close>

lemma assignH_keeps:
  assumes "closed H" "assignH x key v H = (r, H')" "apart H D x" "validRef H v" "apart H D v"
  shows "keeps H H' D"
proof (cases "putPropH H x key v")
  case (Inl e)
  with assms(1,2) show ?thesis by (simp add: assignH_def keeps_refl)
next
  case (Inr H1)
  with assms(2) have "H' = H1" by (simp add: assignH_def)
  with Inr keeps_put [OF assms(1) _ assms(3,4,5)] show ?thesis by simp
qed

lemma deleteKeyH_keeps:
  assumes "closed H" "deleteKeyH x key H = (r, H')" "apart H D x"
  shows "keeps H H' D"
proof (cases "delPropH H x key")
  case (Inl e)
  with assms(1,2) show ?thesis by (simp add: deleteKeyH_def keeps_refl)
next
  case (Inr H1)
  with assms(2) have "H' = H1" by (simp add: deleteKeyH_def)
  with Inr keeps_del [OF assms(1) _ assms(3)] show ?thesis by simp
qed

lemma keeps_carry:
  assumes "keeps H Hc D" "keeps Hc Hc2 D" "apart Hc D x" "validRef Hc x"
  shows "keeps H Hc2 D \<and> apart Hc2 D x \<and> validRef Hc2 x"
  using assms keeps_trans [OF assms(1,2)] keeps_apart [OF assms(2,4,3)] keeps_valid [OF assms(2,4)]
  by simp

lemma deepCopyH_keeps:
  assumes "closed H" "validRef H D" "validRef H obj" "deepCopyH n obj H = (r, H')"
  shows "keeps H H' D \<and> (\<forall>v. r = Return v \<longrightarrow> validRef H' v \<and> apart H' D v)"
  using assms
proof (induction n arbitrary: obj H r H')
  case 0
  then show ?case by (simp add: keeps_refl)
next
  case (Suc n)
  let ?new = "RObj (length H)"
  let ?H0 = "H @ [\<lparr>okind = (if isArrayH H obj then KArray else KObject), oprops = []\<rparr>]"
  let ?body = "\<lambda>key Hc.
                   case getPropH Hc obj key of
                     Inl e \<Rightarrow> (Throw e, Hc)
                   | Inr v \<Rightarrow>
                       (case (if instanceOfObjectH v then deepCopyH n v Hc else (Return v, Hc)) of
                          (Return v', Hc') \<Rightarrow> assignH ?new key v' Hc'
                        | (Throw e, Hc') \<Rightarrow> (Throw e, Hc')
                        | (Exhausted, Hc') \<Rightarrow> (Exhausted, Hc'))"
  let ?I = "\<lambda>Hc. keeps H Hc D \<and> apart Hc D ?new \<and> validRef Hc ?new"
  obtain r1 H1 where loop: "forEachH (map fst (entriesH H obj)) ?body ?H0 = (r1, H1)"
    by (cases "forEachH (map fst (entriesH H obj)) ?body ?H0")
  from keeps_alloc [OF Suc.prems(1,2)] have I0: "?I ?H0" by simp
  have step: "?I Hc'" if I: "?I Hc" and b: "?body key Hc = (q, Hc')" for key Hc q Hc'
  proof (cases "getPropH Hc obj key")
    case (Inl e)
    with b I show ?thesis by simp
  next
    case (Inr v)
    from I have cl: "closed Hc" by (auto dest: keeps_closed)
    from I Suc.prems(2) have vD: "validRef Hc D" by (auto dest: keeps_valid)
    from getPropH_valid [OF cl Inr] have vv: "validRef Hc v" by simp
    obtain q2 Hc2 where c: "(if instanceOfObjectH v then deepCopyH n v Hc else (Return v, Hc)) = (q2, Hc2)"
      by (cases "if instanceOfObjectH v then deepCopyH n v Hc else (Return v, Hc)")
    have k2: "keeps Hc Hc2 D \<and> (\<forall>v'. q2 = Return v' \<longrightarrow> validRef Hc2 v' \<and> apart Hc2 D v')"
    proof (cases "instanceOfObjectH v")
      case True
      with c have "deepCopyH n v Hc = (q2, Hc2)" by simp
      from Suc.IH [OF cl vD vv this] show ?thesis .
    next
      case False
      with c have "q2 = Return v" "Hc2 = Hc" by simp_all
      moreover from False obtain p where "v = RPrim p" by (cases v) auto
      ultimately show ?thesis using cl by (simp add: keeps_refl)
    qed
    from k2 I have I2: "?I Hc2"
      using keeps_carry [of H Hc D Hc2 ?new] by blast
    show ?thesis
    proof (cases q2)
      case (Return v')
      with b Inr c have a: "assignH ?new key v' Hc2 = (q, Hc')" by simp
      from k2 Return have "validRef Hc2 v'" "apart Hc2 D v'" by simp_all
      with assignH_keeps [OF _ a] k2 I2 have "keeps Hc2 Hc' D"
        by (auto dest: keeps_closed)
      with I2 show ?thesis using keeps_carry [of H Hc2 D Hc' ?new] by blast
    next
      case (Throw e)
      with b Inr c I2 show ?thesis by simp
    next
      case Exhausted
      with b Inr c I2 show ?thesis by simp
    qed
  qed
  have I1: "?I H1"
    by (rule forEachH_inv [where I = ?I, OF I0 _ loop]) (rule step)
  from Suc.prems(4) loop have "H' = H1" and "r = Return v \<Longrightarrow> v = ?new" for v
    by (auto simp: Let_def split: result.splits)
  with I1 show ?case by auto
qed

subsection \<open>\<^verbatim>\<open>reset()\<close> keeps the committed tree\<close>

lemma separate_intro:
  "closed H \<Longrightarrow> instanceOfObjectH D \<Longrightarrow> instanceOfObjectH A \<Longrightarrow> validRef H D \<Longrightarrow>
   validRef H A \<Longrightarrow> apart H D A \<Longrightarrow> separate H D A"
  by (simp add: separate_def)

lemma separate_keeps:
  assumes "separate H D A" "keeps H H' D"
  shows "separate H' D A"
proof -
  from assms(1) have s: "closed H" "instanceOfObjectH D" "instanceOfObjectH A"
    "validRef H D" "validRef H A" "apart H D A" by (simp_all add: separate_def)
  from assms(2) have "closed H'" by (rule keeps_closed)
  moreover from assms(2) s(4) have "validRef H' D" by (rule keeps_valid)
  moreover from assms(2) s(5) have "validRef H' A" by (rule keeps_valid)
  moreover from assms(2) s(5,6) have "apart H' D A" by (rule keeps_apart)
  ultimately show ?thesis using s(2,3) by (simp add: separate_def)
qed

lemma separate_sym: "separate H D A \<Longrightarrow> separate H A D"
  by (auto simp: separate_def apart_def)

lemma truthy_object: "instanceOfObjectH v \<Longrightarrow> \<not> falsyH v"
  by (cases v) auto

lemma nsWith_truthy:
  assumes "\<not> falsyH (ds_data this)" "\<not> falsyH (ds_activeData this)"
    and "nsWith rst this key W = (q, child, W1)"
  shows "heap W1 = heap W @ [\<lparr>okind = KObject, oprops = []\<rparr>] \<and> ds_data child = ds_data this
         \<and> ds_activeData child = ds_activeData this
         \<and> ds_namespace child = ds_namespace this @ [key] \<and> q \<noteq> Exhausted"
  using assms
  by (auto simp: nsWith_def constructWith_def loadDataWith_def resetPointerWith_def Let_def
      split: sum.splits prod.splits)

lemma assignCopyH_keeps:
  assumes "closed H" "validRef H D" "validRef H v" "validRef H x" "apart H D x"
    and "assignCopyH n x key v H = (r, H')"
  shows "keeps H H' D"
proof -
  obtain q H1 where c: "deepCopyH n v H = (q, H1)" by (cases "deepCopyH n v H")
  from deepCopyH_keeps [OF assms(1,2,3) c]
  have k: "keeps H H1 D" and v': "\<And>v'. q = Return v' \<Longrightarrow> validRef H1 v' \<and> apart H1 D v'" by simp_all
  show ?thesis
  proof (cases q)
    case (Return v')
    with assms(6) c have a: "assignH x key v' H1 = (r, H')" by (simp add: assignCopyH_def)
    from k assms(4,5) have "apart H1 D x" by (rule keeps_apart)
    with assignH_keeps [OF keeps_closed [OF k] a] v' [OF Return] have "keeps H1 H' D" by simp
    with k show ?thesis by (rule keeps_trans)
  next
    case (Throw e)
    with assms(6) c k show ?thesis by (simp add: assignCopyH_def)
  next
    case Exhausted
    with assms(6) c k show ?thesis by (simp add: assignCopyH_def)
  qed
qed

lemma pointers_apart:
  assumes "separate H D A" "getPointersH_loop H (D, A) path = Inr (c, w)"
  shows "validRef H c \<and> validRef H w \<and> apart H D w \<and> apart H A c"
proof -
  from assms(1) have s: "closed H" "validRef H D" "validRef H A" "apart H D A"
    by (simp_all add: separate_def)
  from getPointersH_loop_valid [OF s(1) assms(2)] s(2,3)
  have "validRef H c" "validRef H w" "reach H c \<subseteq> reach H D" "reach H w \<subseteq> reach H A"
    by simp_all
  with s(4) show ?thesis by (auto simp: apart_def)
qed

lemma resetH_keeps:
  assumes "separate (heap W) D A" "ds_data this = D" "ds_activeData this = A"
    and "resetH n this W = (r, this', W')"
  shows "keeps (heap W) (heap W') D \<and> this' = this"
  using assms
proof (induction n arbitrary: this W r this' W')
  case 0
  then show ?case by (simp add: separate_def keeps_refl)
next
  case (Suc n)
  let ?H = "heap W"
  from Suc.prems(1) have s: "closed ?H" "instanceOfObjectH D" "instanceOfObjectH A"
    "validRef ?H D" "validRef ?H A" "apart ?H D A" by (simp_all add: separate_def)
  from s(2,3) Suc.prems(2,3) have tr: "\<not> falsyH (ds_data this)" "\<not> falsyH (ds_activeData this)"
    by (simp_all add: truthy_object)
  show ?case
  proof (cases "getPointersH this ?H")
    case (Inl e)
    with Suc.prems(4) tr s(1) show ?thesis by (simp add: keeps_refl)
  next
    case (Inr cw)
    obtain c w where cw: "cw = (c, w)" by (cases cw)
    with Inr Suc.prems(2,3) have "getPointersH_loop ?H (D, A) (ds_namespace this) = Inr (c, w)"
      by (simp add: getPointersH_def)
    from pointers_apart [OF Suc.prems(1) this]
    have p: "validRef ?H c" "validRef ?H w" "apart ?H D w" by simp_all
    let ?body1 = "\<lambda>key Wc.
                        case getPropH (heap Wc) c key of
                          Inl e \<Rightarrow> (Throw e, Wc)
                        | Inr cv \<Rightarrow>
                            if instanceOfObjectH cv then
                              (case getPropH (heap Wc) w key of
                                 Inl e \<Rightarrow> (Throw e, Wc)
                               | Inr wv \<Rightarrow>
                                   if typeOfH wv \<noteq> TUndefined then
                                     (case nsWith (resetH n) this key Wc of
                                        (Return u, child, Wc') \<Rightarrow>
                                          (case resetH n child Wc' of (r, child', Wc'') \<Rightarrow> (r, Wc''))
                                      | (r, child, Wc') \<Rightarrow> (r, Wc'))
                                   else onHeap (assignCopyH n w key cv) Wc)
                            else onHeap (assignH w key cv) Wc"
    let ?body2 = "\<lambda>key Wc.
                             case hasPropertyH (heap Wc) c key of
                               Inl e \<Rightarrow> (Throw e, Wc)
                             | Inr b \<Rightarrow>
                                 if \<not> b then onHeap (deleteKeyH w key) Wc
                                 else (Return (), Wc)"
    let ?I = "\<lambda>Wc. keeps ?H (heap Wc) D"
    have I0: "?I W" using s(1) by (rule keeps_refl)
    have step1: "?I Wc'" if I: "?I Wc" and b: "?body1 key Wc = (q, Wc')" for key Wc q Wc'
    proof -
      let ?Hc = "heap Wc"
      from I have cl: "closed ?Hc" by (rule keeps_closed)
      from I s(4) have vD: "validRef ?Hc D" by (rule keeps_valid)
      from I p(2) have vw: "validRef ?Hc w" by (rule keeps_valid)
      from I p(2,3) have aw: "apart ?Hc D w" by (rule keeps_apart)
      from Suc.prems(1) I have sep: "separate ?Hc D A" by (rule separate_keeps)
      show ?thesis
      proof (cases "getPropH ?Hc c key")
        case (Inl e)
        with b I show ?thesis by simp
      next
        case (Inr cv)
        from getPropH_valid [OF cl Inr] have vcv: "validRef ?Hc cv" by simp
        show ?thesis
        proof (cases "instanceOfObjectH cv")
          case False
          then obtain pr where "cv = RPrim pr" by (cases cv) auto
          with b Inr False obtain H2 where "assignH w key (RPrim pr) ?Hc = (q, H2)" "heap Wc' = H2"
            by (auto simp: onHeap_def split: prod.splits)
          with assignH_keeps [OF cl _ aw, of key "RPrim pr" q H2] have "keeps ?Hc (heap Wc') D" by simp
          with I show ?thesis by (rule keeps_trans)
        next
          case True
          show ?thesis
          proof (cases "getPropH ?Hc w key")
            case (Inl e)
            with b Inr True I show ?thesis by simp
          next
            case Inr2: (Inr wv)
            show ?thesis
            proof (cases "typeOfH wv \<noteq> TUndefined")
              case False
              with b Inr True Inr2 obtain H2 where "assignCopyH n w key cv ?Hc = (q, H2)" "heap Wc' = H2"
                by (auto simp: onHeap_def split: prod.splits)
              with assignCopyH_keeps [OF cl vD vcv vw aw, of n key q H2]
              have "keeps ?Hc (heap Wc') D" by simp
              with I show ?thesis by (rule keeps_trans)
            next
              case T: True
              obtain q1 child W1 where ns: "nsWith (resetH n) this key Wc = (q1, child, W1)"
                by (cases "nsWith (resetH n) this key Wc") auto
              from nsWith_truthy [OF tr ns] Suc.prems(2,3)
              have h1: "heap W1 = ?Hc @ [\<lparr>okind = KObject, oprops = []\<rparr>]"
                and ch: "ds_data child = D" "ds_activeData child = A" by simp_all
              from keeps_alloc [OF cl vD, of KObject] h1 have k1: "keeps ?Hc (heap W1) D" by simp
              with I have I1: "keeps ?H (heap W1) D" by (rule keeps_trans)
              show ?thesis
              proof (cases q1)
                case (Return u)
                obtain q2 child' W2 where rs: "resetH n child W1 = (q2, child', W2)"
                  by (cases "resetH n child W1") auto
                from sep k1 have "separate (heap W1) D A" by (rule separate_keeps)
                from Suc.IH [OF this ch rs] have "keeps (heap W1) (heap W2) D" by simp
                with I1 have "keeps ?H (heap W2) D" by (rule keeps_trans)
                moreover from b Inr True Inr2 T ns Return rs have "Wc' = W2" by simp
                ultimately show ?thesis by simp
              next
                case (Throw e)
                with b Inr True Inr2 T ns have "Wc' = W1" by simp
                with I1 show ?thesis by simp
              next
                case Exhausted
                with b Inr True Inr2 T ns have "Wc' = W1" by simp
                with I1 show ?thesis by simp
              qed
            qed
          qed
        qed
      qed
    qed
    have step2: "?I Wc'" if I: "?I Wc" and b: "?body2 key Wc = (q, Wc')" for key Wc q Wc'
    proof -
      let ?Hc = "heap Wc"
      from I have cl: "closed ?Hc" by (rule keeps_closed)
      from I p(2,3) have aw: "apart ?Hc D w" by (rule keeps_apart)
      show ?thesis
      proof (cases "hasPropertyH ?Hc c key")
        case (Inl e)
        with b I show ?thesis by simp
      next
        case (Inr bb)
        show ?thesis
        proof (cases bb)
          case True
          with b Inr I show ?thesis by simp
        next
          case False
          with b Inr obtain H2 where "deleteKeyH w key ?Hc = (q, H2)" "heap Wc' = H2"
            by (auto simp: onHeap_def split: prod.splits)
          with deleteKeyH_keeps [OF cl _ aw, of key q H2] have "keeps ?Hc (heap Wc') D" by simp
          with I show ?thesis by (rule keeps_trans)
        qed
      qed
    qed
    obtain r1 W1 where l1: "forEachH (map fst (entriesH ?H c)) ?body1 W = (r1, W1)"
      by (cases "forEachH (map fst (entriesH ?H c)) ?body1 W")
    have I1: "?I W1" by (rule forEachH_inv [where I = ?I, OF I0 _ l1]) (rule step1)
    show ?thesis
    proof (cases r1)
      case (Return u)
      obtain r2 W2 where l2: "forEachH (map fst (entriesH (heap W1) w)) ?body2 W1 = (r2, W2)"
        by (cases "forEachH (map fst (entriesH (heap W1) w)) ?body2 W1")
      have I2: "?I W2" by (rule forEachH_inv [where I = ?I, OF I1 _ l2]) (rule step2)
      from Suc.prems(4) tr Inr cw l1 Return l2 have "W' = W2" "this' = this" by simp_all
      with I2 show ?thesis by simp
    next
      case (Throw e)
      from Suc.prems(4) tr Inr cw l1 Throw have "W' = W1" "this' = this" by simp_all
      with I1 show ?thesis by simp
    next
      case Exhausted
      from Suc.prems(4) tr Inr cw l1 Exhausted have "W' = W1" "this' = this" by simp_all
      with I1 show ?thesis by simp
    qed
  qed
qed

subsection \<open>The accessors keep the committed tree\<close>

lemma resetPointerH_truthy:
  assumes "separate (heap W) D A" "ds_data this = D" "ds_activeData this = A"
    and "resetPointerH n this W = (r, this', W')"
  shows "W' = W \<and> ds_data this' = D \<and> ds_activeData this' = A
         \<and> (r = Return () \<longrightarrow> validRef (heap W) (ds_pointer this') \<and> apart (heap W) D (ds_pointer this'))
         \<and> (r \<noteq> Return () \<longrightarrow> this' = this)"
proof -
  from assms(1,3) have tr: "\<not> falsyH (ds_activeData this)" by (simp add: separate_def truthy_object)
  show ?thesis
  proof (cases "getPointersH this (heap W)")
    case (Inl e)
    with assms(2,3,4) tr show ?thesis by (auto simp: resetPointerH_def resetPointerWith_def)
  next
    case (Inr cw)
    obtain c w where cw: "cw = (c, w)" by (cases cw)
    with Inr assms(2,3) have "getPointersH_loop (heap W) (D, A) (ds_namespace this) = Inr (c, w)"
      by (simp add: getPointersH_def)
    from pointers_apart [OF assms(1) this] have "validRef (heap W) w" "apart (heap W) D w" by simp_all
    with assms(2,3,4) tr Inr cw show ?thesis
      by (auto simp: resetPointerH_def resetPointerWith_def)
  qed
qed

lemma getH_same:
  assumes "separate (heap W) D A" "ds_data this = D" "ds_activeData this = A"
    and "getH n this key W = (r, this', W')"
  shows "W' = W \<and> ds_data this' = D \<and> ds_activeData this' = A"
proof -
  obtain q t W1 where rp: "resetPointerH n this W = (q, t, W1)" by (cases "resetPointerH n this W") auto
  from resetPointerH_truthy [OF assms(1-3) rp] assms(4) rp show ?thesis
    by (auto simp: getH_def split: result.splits sum.splits)
qed

lemma hasH_same:
  assumes "separate (heap W) D A" "ds_data this = D" "ds_activeData this = A"
    and "hasH n this key W = (r, this', W')"
  shows "W' = W \<and> ds_data this' = D \<and> ds_activeData this' = A"
proof -
  obtain q t W1 where rp: "resetPointerH n this W = (q, t, W1)" by (cases "resetPointerH n this W") auto
  from resetPointerH_truthy [OF assms(1-3) rp] assms(4) rp show ?thesis
    by (auto simp: hasH_def split: result.splits sum.splits)
qed

lemma keysH_same:
  assumes "separate (heap W) D A" "ds_data this = D" "ds_activeData this = A"
    and "keysH n this W = (r, this', W')"
  shows "W' = W \<and> ds_data this' = D \<and> ds_activeData this' = A
         \<and> (\<forall>ks. r = Return ks \<longrightarrow> validRef (heap W) (ds_pointer this') \<and> apart (heap W) D (ds_pointer this'))"
proof -
  obtain q t W1 where rp: "resetPointerH n this W = (q, t, W1)" by (cases "resetPointerH n this W") auto
  from resetPointerH_truthy [OF assms(1-3) rp] assms(4) rp show ?thesis
    by (auto simp: keysH_def split: result.splits sum.splits if_splits)
qed

lemma setH_keeps:
  assumes "separate (heap W) D A" "ds_data this = D" "ds_activeData this = A"
    and "validRef (heap W) v" "apart (heap W) D v"
    and "setH n this key v W = (r, this', W')"
  shows "keeps (heap W) (heap W') D \<and> ds_data this' = D \<and> ds_activeData this' = A
         \<and> (this' = this \<or> validRef (heap W') (ds_pointer this') \<and> apart (heap W') D (ds_pointer this'))"
proof -
  from assms(1) have cl: "closed (heap W)" by (simp add: separate_def)
  obtain q t W1 where rp: "resetPointerH n this W = (q, t, W1)" by (cases "resetPointerH n this W") auto
  note f = resetPointerH_truthy [OF assms(1-3) rp]
  show ?thesis
  proof (cases "q = Return ()")
    case False
    with f assms(6) rp cl show ?thesis by (auto simp: setH_def keeps_refl split: result.splits)
  next
    case True
    with f have p: "validRef (heap W) (ds_pointer t)" "apart (heap W) D (ds_pointer t)" "W1 = W" by simp_all
    obtain r2 H2 where a0: "assignH (ds_pointer t) key v (heap W) = (r2, H2)"
      by (cases "assignH (ds_pointer t) key v (heap W)")
    with assms(6) rp True p(3) have a: "assignH (ds_pointer t) key v (heap W) = (r, H2)"
      "heap W' = H2" "this' = t"
      by (auto simp: setH_def onHeap_def)
    from assignH_keeps [OF cl a(1) p(2) assms(4,5)] a(2) have k: "keeps (heap W) (heap W') D" by simp
    from k p(1) have "validRef (heap W') (ds_pointer t)" by (rule keeps_valid)
    moreover from k p(1,2) have "apart (heap W') D (ds_pointer t)" by (rule keeps_apart)
    ultimately show ?thesis using k f a(3) by simp
  qed
qed

lemma unsetH_keeps:
  assumes "separate (heap W) D A" "ds_data this = D" "ds_activeData this = A"
    and "unsetH n this key W = (r, this', W')"
  shows "keeps (heap W) (heap W') D \<and> ds_data this' = D \<and> ds_activeData this' = A"
proof -
  from assms(1) have cl: "closed (heap W)" by (simp add: separate_def)
  obtain q t W1 where rp: "resetPointerH n this W = (q, t, W1)" by (cases "resetPointerH n this W") auto
  note f = resetPointerH_truthy [OF assms(1-3) rp]
  show ?thesis
  proof (cases "q = Return ()")
    case False
    with f assms(4) rp cl show ?thesis by (auto simp: unsetH_def keeps_refl split: result.splits)
  next
    case True
    with f have p: "validRef (heap W) (ds_pointer t)" "apart (heap W) D (ds_pointer t)" "W1 = W" by simp_all
    obtain r2 H2 where a0: "deleteKeyH (ds_pointer t) key (heap W) = (r2, H2)"
      by (cases "deleteKeyH (ds_pointer t) key (heap W)")
    with assms(4) rp True p(3) have a: "deleteKeyH (ds_pointer t) key (heap W) = (r, H2)"
      "heap W' = H2" "this' = t"
      by (auto simp: unsetH_def onHeap_def)
    from deleteKeyH_keeps [OF cl a(1) p(2)] a(2) have k: "keeps (heap W) (heap W') D" by simp
    then show ?thesis using f a(3) by simp
  qed
qed

lemma nsH_keeps:
  assumes "separate (heap W) D A" "ds_data this = D" "ds_activeData this = A"
    and "nsH n this name W = (r, child, W')"
  shows "keeps (heap W) (heap W') D \<and> ds_data child = D \<and> ds_activeData child = A"
proof -
  from assms(1) have s: "closed (heap W)" "validRef (heap W) D" "instanceOfObjectH D" "instanceOfObjectH A"
    by (simp_all add: separate_def)
  from s(3,4) assms(2,3) have tr: "\<not> falsyH (ds_data this)" "\<not> falsyH (ds_activeData this)"
    by (simp_all add: truthy_object)
  from assms(4) have "nsWith (resetH n) this name W = (r, child, W')" by (simp add: nsH_def)
  from nsWith_truthy [OF tr this] keeps_alloc [OF s(1,2), of KObject] assms(2,3)
  show ?thesis by simp
qed

subsection \<open>\<^verbatim>\<open>map\<close> and \<^verbatim>\<open>filter\<close> keep the committed tree\<close>

lemma read_apart:
  assumes "closed H" "apart H D p" "getPropH H p key = Inr v"
  shows "validRef H v \<and> apart H D v"
proof -
  from getPropH_valid [OF assms(1,3)] have "validRef H v" "reach H v \<subseteq> reach H p" by simp_all
  with assms(2) show ?thesis by (simp add: apart_sub)
qed

lemma callback_apart:
  assumes k: "keeps H Hc D"
    and cb: "cb v key = v \<or> validRef H (cb v key) \<and> apart H D (cb v key)"
    and v: "validRef Hc v" "apart Hc D v"
  shows "validRef Hc (cb v key) \<and> apart Hc D (cb v key)"
proof (cases "cb v key = v")
  case True
  with v show ?thesis by simp
next
  case False
  with cb have c: "validRef H (cb v key)" "apart H D (cb v key)" by simp_all
  from k c(1) have "validRef Hc (cb v key)" by (rule keeps_valid)
  moreover from k c have "apart Hc D (cb v key)" by (rule keeps_apart)
  ultimately show ?thesis by simp
qed

lemma mapInPlaceH_keeps:
  assumes sep: "separate (heap W) D A" and d: "ds_data this = D" and a: "ds_activeData this = A"
    and cb: "\<And>x key. cb x key = x \<or> validRef (heap W) (cb x key) \<and> apart (heap W) D (cb x key)"
    and m: "mapInPlaceH n this cb W = (r, this', W')"
  shows "keeps (heap W) (heap W') D \<and> ds_data this' = D \<and> ds_activeData this' = A"
proof -
  let ?H = "heap W"
  from sep have cl: "closed ?H" by (simp add: separate_def)
  obtain rk t1 W1 where k: "keysH n this W = (rk, t1, W1)" by (cases "keysH n this W") auto
  note f = keysH_same [OF sep d a k]
  show ?thesis
  proof (cases rk)
    case (Throw e)
    with m k f cl show ?thesis by (simp add: mapInPlaceH_def keeps_refl)
  next
    case Exhausted
    with m k f cl show ?thesis by (simp add: mapInPlaceH_def keeps_refl)
  next
    case (Return ks)
    let ?body = "\<lambda>key (t, Wc).
               case getPropH (heap Wc) (ds_pointer t) key of
                 Inl e \<Rightarrow> (Throw e, t, Wc)
               | Inr v \<Rightarrow> setH n t key (cb v key) Wc"
    let ?J = "\<lambda>s. keeps ?H (heap (snd s)) D \<and> ds_data (fst s) = D \<and> ds_activeData (fst s) = A
                 \<and> validRef (heap (snd s)) (ds_pointer (fst s))
                 \<and> apart (heap (snd s)) D (ds_pointer (fst s))"
    from m k Return have l: "forEachH ks ?body (t1, W1) = (r, this', W')"
      by (simp add: mapInPlaceH_def)
    from f Return cl have J0: "?J (t1, W1)" by (simp add: keeps_refl)
    have step: "?J s'" if J: "?J s" and b: "?body key s = (q, s')" for key s q s'
    proof -
      obtain t Wc where s: "s = (t, Wc)" by (cases s)
      obtain t' Wc' where s': "s' = (t', Wc')" by (cases s')
      let ?Hc = "heap Wc"
      from J s have kc: "keeps ?H ?Hc D" and rt: "ds_data t = D" "ds_activeData t = A"
        and pv: "validRef ?Hc (ds_pointer t)" and pa: "apart ?Hc D (ds_pointer t)" by simp_all
      from kc have clc: "closed ?Hc" by (rule keeps_closed)
      from sep kc have sepc: "separate ?Hc D A" by (rule separate_keeps)
      show ?thesis
      proof (cases "getPropH ?Hc (ds_pointer t) key")
        case (Inl e)
        with b s J show ?thesis by auto
      next
        case (Inr v)
        from read_apart [OF clc pa Inr] have v: "validRef ?Hc v" "apart ?Hc D v" by simp_all
        from callback_apart [where cb = cb and v = v and key = key, OF kc cb v] have u: "validRef ?Hc (cb v key)" "apart ?Hc D (cb v key)"
          by simp_all
        from b s s' Inr have st: "setH n t key (cb v key) Wc = (q, t', Wc')" by simp
        note g = setH_keeps [OF sepc rt u st]
        then have k2: "keeps ?Hc (heap Wc') D" by simp
        from keeps_carry [OF kc k2 pa pv]
        have "keeps ?H (heap Wc') D" "apart (heap Wc') D (ds_pointer t)" "validRef (heap Wc') (ds_pointer t)"
          by simp_all
        with g s' show ?thesis by auto
      qed
    qed
    have "?J (this', W')" by (rule forEachH_inv [where I = ?J, OF J0 _ l]) (rule step)
    then show ?thesis by simp
  qed
qed

lemma collect_keeps:
  assumes sep: "separate (heap W) D A" and d: "ds_data this = D" and a: "ds_activeData this = A"
    and cb: "\<And>x key. cb x key = x \<or> validRef (heap W) (cb x key) \<and> apart (heap W) D (cb x key)"
    and W0: "W0 = W\<lparr>heap := heap W @ [\<lparr>okind = kd, oprops = []\<rparr>]\<rparr>"
    and k: "keysH n this W0 = (Return ks, t1, W1)"
    and body: "\<And>key Wc q Wc'. body key Wc = (q, Wc') \<Longrightarrow>
        (case getPropH (heap Wc) (ds_pointer t1) key of
           Inl e \<Rightarrow> Wc' = Wc
         | Inr v \<Rightarrow> Wc' = Wc \<or> (\<exists>k' u. (u = v \<or> u = cb v key)
                      \<and> onHeap (assignH (RObj (length (heap W))) k' u) Wc = (q, Wc')))"
    and l: "forEachH ks body W1 = (r, W2)"
  shows "keeps (heap W) (heap W2) D \<and> apart (heap W2) D (RObj (length (heap W)))"
proof -
  let ?H = "heap W" and ?Hn = "heap W0"
  let ?m = "RObj (length (heap W))"
  from sep have cl: "closed ?H" and vD: "validRef ?H D" by (simp_all add: separate_def)
  from W0 have h0: "?Hn = ?H @ [\<lparr>okind = kd, oprops = []\<rparr>]" by simp
  from keeps_alloc [OF cl vD, of kd] h0 have k0: "keeps ?H ?Hn D" and ma: "apart ?Hn D ?m" by simp_all
  from h0 have mv: "validRef ?Hn ?m" by simp
  from sep k0 have sep0: "separate ?Hn D A" by (rule separate_keeps)
  from keysH_same [OF sep0 d a k] have w1: "W1 = W0"
    and pv: "validRef ?Hn (ds_pointer t1)" and pa: "apart ?Hn D (ds_pointer t1)" by simp_all
  let ?I = "\<lambda>Wc. keeps ?Hn (heap Wc) D"
  from k0 have "closed ?Hn" by (rule keeps_closed)
  with w1 have I0: "?I W1" by (simp add: keeps_refl)
  have step: "?I Wc'" if I: "?I Wc" and b: "body key Wc = (q, Wc')" for key Wc q Wc'
  proof -
    let ?Hc = "heap Wc"
    from I have clc: "closed ?Hc" by (rule keeps_closed)
    from I pv pa have pac: "apart ?Hc D (ds_pointer t1)" by (rule keeps_apart)
    from I mv ma have mac: "apart ?Hc D ?m" by (rule keeps_apart)
    from k0 I have kc: "keeps ?H ?Hc D" by (rule keeps_trans)
    show ?thesis
    proof (cases "getPropH ?Hc (ds_pointer t1) key")
      case (Inl e)
      with body [OF b] I show ?thesis by simp
    next
      case (Inr v)
      from read_apart [OF clc pac Inr] have v: "validRef ?Hc v" "apart ?Hc D v" by simp_all
      from callback_apart [where cb = cb and v = v and key = key, OF kc cb v] have u: "validRef ?Hc (cb v key)" "apart ?Hc D (cb v key)"
        by simp_all
      from body [OF b] Inr
      consider "Wc' = Wc"
        | k' u where "u = v \<or> u = cb v key" "onHeap (assignH ?m k' u) Wc = (q, Wc')"
        by auto
      then show ?thesis
      proof cases
        case 1
        with I show ?thesis by simp
      next
        case 2
        from 2(1) v u have uu: "validRef ?Hc u" "apart ?Hc D u" by auto
        obtain q2 H2 where as: "assignH ?m k' u ?Hc = (q2, H2)" by (cases "assignH ?m k' u ?Hc")
        with 2(2) have "heap Wc' = H2" by (auto simp: onHeap_def)
        with assignH_keeps [OF clc as mac uu] have "keeps ?Hc (heap Wc') D" by simp
        with I show ?thesis by (rule keeps_trans)
      qed
    qed
  qed
  have I2: "?I W2" by (rule forEachH_inv [where I = ?I, OF I0 _ l]) (rule step)
  with k0 have "keeps ?H (heap W2) D" by (rule keeps_trans)
  moreover from I2 mv ma have "apart (heap W2) D ?m" by (rule keeps_apart)
  ultimately show ?thesis by simp
qed

lemma collect_stops:
  assumes sep: "separate (heap W) D A" and d: "ds_data this = D" and a: "ds_activeData this = A"
    and W0: "W0 = W\<lparr>heap := heap W @ [\<lparr>okind = kd, oprops = []\<rparr>]\<rparr>"
    and k: "keysH n this W0 = (rk, t1, W1)"
  shows "keeps (heap W) (heap W1) D \<and> ds_data t1 = D \<and> ds_activeData t1 = A"
proof -
  from sep have cl: "closed (heap W)" and vD: "validRef (heap W) D" by (simp_all add: separate_def)
  from W0 have h0: "heap W0 = heap W @ [\<lparr>okind = kd, oprops = []\<rparr>]" by simp
  from keeps_alloc [OF cl vD, of kd] h0 have k0: "keeps (heap W) (heap W0) D" by simp
  from sep k0 have sep0: "separate (heap W0) D A" by (rule separate_keeps)
  from keysH_same [OF sep0 d a k] k0 show ?thesis by simp
qed

lemma mapH_keeps:
  assumes sep: "separate (heap W) D A" and d: "ds_data this = D" and a: "ds_activeData this = A"
    and cb: "\<And>x key. cb x key = x \<or> validRef (heap W) (cb x key) \<and> apart (heap W) D (cb x key)"
    and m: "mapH n this cb W = (r, this', W')"
  shows "keeps (heap W) (heap W') D \<and> ds_data this' = D \<and> ds_activeData this' = A
         \<and> (\<forall>res. r = Return res \<longrightarrow> apart (heap W') D res)"
proof -
  define kd where "kd = (if isArrayOfH this W then KArray else KObject)"
  define W0 where "W0 = W\<lparr>heap := heap W @ [\<lparr>okind = kd, oprops = []\<rparr>]\<rparr>"
  obtain rk t1 W1 where k: "keysH n this W0 = (rk, t1, W1)" by (cases "keysH n this W0") auto
  note st = collect_stops [OF sep d a W0_def k]
  show ?thesis
  proof (cases rk)
    case (Throw e)
    with m k st show ?thesis by (auto simp: mapH_def W0_def kd_def)
  next
    case Exhausted
    with m k st show ?thesis by (auto simp: mapH_def W0_def kd_def)
  next
    case (Return ks)
    let ?body = "\<lambda>key W'.
                        case getPropH (heap W') (ds_pointer t1) key of
                          Inl e \<Rightarrow> (Throw e, W')
                        | Inr v \<Rightarrow> onHeap (assignH (RObj (length (heap W))) key (cb v key)) W'"
    obtain r2 W2 where l: "forEachH ks ?body W1 = (r2, W2)" by (cases "forEachH ks ?body W1")
    have "keeps (heap W) (heap W2) D \<and> apart (heap W2) D (RObj (length (heap W)))"
    proof (rule collect_keeps [OF sep d a cb W0_def _ _ l])
      from k Return show "keysH n this W0 = (Return ks, t1, W1)" by simp
    next
      fix key Wc q Wc'
      assume "?body key Wc = (q, Wc')"
      then show "case getPropH (heap Wc) (ds_pointer t1) key of
           Inl e \<Rightarrow> Wc' = Wc
         | Inr v \<Rightarrow> Wc' = Wc \<or> (\<exists>k' u. (u = v \<or> u = cb v key)
                      \<and> onHeap (assignH (RObj (length (heap W))) k' u) Wc = (q, Wc'))"
        by (auto split: sum.splits)
    qed
    moreover from m k Return l have "W' = W2" "this' = t1" "\<forall>res. r = Return res \<longrightarrow> res = RObj (length (heap W))"
      by (auto simp: mapH_def W0_def kd_def Let_def split: result.splits)
    ultimately show ?thesis using st by auto
  qed
qed

lemma onHeap_push:
  "onHeap (pushH arr v) Wc = onHeap (assignH arr (showNat (length (entriesH (heap Wc) arr))) v) Wc"
  by (simp add: onHeap_def pushH_def)

lemma filterH_keeps:
  assumes sep: "separate (heap W) D A" and d: "ds_data this = D" and a: "ds_activeData this = A"
    and m: "filterH n this cb W = (r, this', W')"
  shows "keeps (heap W) (heap W') D \<and> ds_data this' = D \<and> ds_activeData this' = A
         \<and> (\<forall>res. r = Return res \<longrightarrow> apart (heap W') D res)"
proof -
  let ?isArr = "isArrayOfH this W"
  define kd where "kd = (if ?isArr then KArray else KObject)"
  define W0 where "W0 = W\<lparr>heap := heap W @ [\<lparr>okind = kd, oprops = []\<rparr>]\<rparr>"
  obtain rk t1 W1 where k: "keysH n this W0 = (rk, t1, W1)" by (cases "keysH n this W0") auto
  note st = collect_stops [OF sep d a W0_def k]
  show ?thesis
  proof (cases rk)
    case (Throw e)
    with m k st show ?thesis by (auto simp: filterH_def W0_def kd_def)
  next
    case Exhausted
    with m k st show ?thesis by (auto simp: filterH_def W0_def kd_def)
  next
    case (Return ks)
    let ?body = "\<lambda>key W'.
                        case getPropH (heap W') (ds_pointer t1) key of
                          Inl e \<Rightarrow> (Throw e, W')
                        | Inr v \<Rightarrow>
                            if \<not> falsyH (cb v key) then
                              (if ?isArr then onHeap (pushH (RObj (length (heap W))) v) W'
                               else onHeap (assignH (RObj (length (heap W))) key v) W')
                            else (Return (), W')"
    obtain r2 W2 where l: "forEachH ks ?body W1 = (r2, W2)" by (cases "forEachH ks ?body W1")
    have "keeps (heap W) (heap W2) D \<and> apart (heap W2) D (RObj (length (heap W)))"
    proof (rule collect_keeps [where cb = "\<lambda>x key. x", OF sep d a _ W0_def _ _ l])
      from k Return show "keysH n this W0 = (Return ks, t1, W1)" by simp
    next
      fix key Wc q Wc'
      assume "?body key Wc = (q, Wc')"
      then show "case getPropH (heap Wc) (ds_pointer t1) key of
           Inl e \<Rightarrow> Wc' = Wc
         | Inr v \<Rightarrow> Wc' = Wc \<or> (\<exists>k' u. (u = v \<or> u = v)
                      \<and> onHeap (assignH (RObj (length (heap W))) k' u) Wc = (q, Wc'))"
        by (auto simp: onHeap_push split: sum.splits if_splits)
    qed simp
    moreover from m k Return l have "W' = W2" "this' = t1" "\<forall>res. r = Return res \<longrightarrow> res = RObj (length (heap W))"
      by (auto simp: filterH_def W0_def kd_def Let_def split: result.splits)
    ultimately show ?thesis using st by auto
  qed
qed

subsection \<open>\<^verbatim>\<open>commit\<close> and the constructor\<close>

lemma deepCopyH_object:
  "deepCopyH n obj H = (Return v, H') \<Longrightarrow> v = RObj (length H)"
  by (cases n) (auto simp: Let_def split: prod.splits result.splits)

lemma commitH_separate:
  assumes sep: "separate (heap W) D A" and d: "ds_data this = D" and a: "ds_activeData this = A"
    and save: "\<And>i x H b. fst (snd (hb_save (ds_backend this) i x H b)) = H"
    and c: "commitH n this sv W = (r, this', W')"
  shows "separate (heap W') D A \<and> this' = this"
proof (cases "getPointersH this (heap W)")
  case (Inl e)
  with c sep show ?thesis by (simp add: commitH_def)
next
  case (Inr cw)
  let ?H = "heap W"
  obtain cp w where cw: "cw = (cp, w)" by (cases cw)
  with Inr d a have "getPointersH_loop ?H (D, A) (ds_namespace this) = Inr (cp, w)"
    by (simp add: getPointersH_def)
  from pointers_apart [OF sep this]
  have p: "validRef ?H cp" "validRef ?H w" "apart ?H A cp" by simp_all
  from sep have s: "closed ?H" "validRef ?H A" by (simp_all add: separate_def)
  let ?body1 = "\<lambda>key. onHeap (deleteKeyH cp key)"
  let ?body2 = "\<lambda>key Wc.
                          case getPropH (heap Wc) w key of
                            Inl e \<Rightarrow> (Throw e, Wc)
                          | Inr wv \<Rightarrow>
                              if instanceOfObjectH wv then onHeap (assignCopyH n cp key wv) Wc
                              else onHeap (assignH cp key wv) Wc"
  let ?I = "\<lambda>Wc. keeps ?H (heap Wc) A \<and> storage Wc = storage W"
  have I0: "?I W" using s(1) by (simp add: keeps_refl)
  have step1: "?I Wc'" if I: "?I Wc" and b: "?body1 key Wc = (q, Wc')" for key Wc q Wc'
  proof -
    let ?Hc = "heap Wc"
    from I have k: "keeps ?H ?Hc A" by simp
    from k have cl: "closed ?Hc" by (rule keeps_closed)
    from k p(1,3) have ap: "apart ?Hc A cp" by (rule keeps_apart)
    obtain q2 H2 where dl: "deleteKeyH cp key ?Hc = (q2, H2)" by (cases "deleteKeyH cp key ?Hc")
    with b have h: "heap Wc' = H2" "storage Wc' = storage Wc" by (auto simp: onHeap_def)
    with deleteKeyH_keeps [OF cl dl ap] have "keeps ?Hc (heap Wc') A" by simp
    with k have "keeps ?H (heap Wc') A" by (rule keeps_trans)
    with h I show ?thesis by simp
  qed
  have step2: "?I Wc'" if I: "?I Wc" and b: "?body2 key Wc = (q, Wc')" for key Wc q Wc'
  proof -
    let ?Hc = "heap Wc"
    from I have k: "keeps ?H ?Hc A" by simp
    from k have cl: "closed ?Hc" by (rule keeps_closed)
    from k p(1,3) have ap: "apart ?Hc A cp" by (rule keeps_apart)
    from k p(1) have vc: "validRef ?Hc cp" by (rule keeps_valid)
    from k s(2) have vA: "validRef ?Hc A" by (rule keeps_valid)
    show ?thesis
    proof (cases "getPropH ?Hc w key")
      case (Inl e)
      with b I show ?thesis by simp
    next
      case (Inr wv)
      from getPropH_valid [OF cl Inr] have vwv: "validRef ?Hc wv" by simp
      show ?thesis
      proof (cases "instanceOfObjectH wv")
        case True
        obtain q2 H2 where as: "assignCopyH n cp key wv ?Hc = (q2, H2)"
          by (cases "assignCopyH n cp key wv ?Hc")
        with b Inr True have h: "heap Wc' = H2" "storage Wc' = storage Wc" by (auto simp: onHeap_def)
        with assignCopyH_keeps [OF cl vA vwv vc ap as] have "keeps ?Hc (heap Wc') A" by simp
        with k have "keeps ?H (heap Wc') A" by (rule keeps_trans)
        with h I show ?thesis by simp
      next
        case False
        then obtain pr where pr: "wv = RPrim pr" by (cases wv) auto
        obtain q2 H2 where as: "assignH cp key wv ?Hc = (q2, H2)" by (cases "assignH cp key wv ?Hc")
        with b Inr False have h: "heap Wc' = H2" "storage Wc' = storage Wc" by (auto simp: onHeap_def)
        from pr have "validRef ?Hc wv" "apart ?Hc A wv" by simp_all
        with assignH_keeps [OF cl as ap] h have "keeps ?Hc (heap Wc') A" by simp
        with k have "keeps ?H (heap Wc') A" by (rule keeps_trans)
        with h I show ?thesis by simp
      qed
    qed
  qed
  obtain r1 W1 where l1: "forEachH (map fst (entriesH ?H cp)) ?body1 W = (r1, W1)"
    by (cases "forEachH (map fst (entriesH ?H cp)) ?body1 W")
  have I1: "?I W1" by (rule forEachH_inv [where I = ?I, OF I0 _ l1]) (rule step1)
  have fin: "separate (heap Wx) D A" if "?I Wx" for Wx
  proof -
    from sep have "separate ?H A D" by (rule separate_sym)
    moreover from that have "keeps ?H (heap Wx) A" by simp
    ultimately have "separate (heap Wx) A D" by (rule separate_keeps)
    then show ?thesis by (rule separate_sym)
  qed
  have rst: "separate (heap Wz) D A \<and> tz = this"
    if "separate (heap Wy) D A" "resetH n this Wy = (rz, tz, Wz)" for Wy rz tz Wz
  proof -
    from resetH_keeps [OF that(1) d a that(2)] have "keeps (heap Wy) (heap Wz) D" "tz = this"
      by simp_all
    with separate_keeps [OF that(1)] show ?thesis by simp
  qed
  show ?thesis
  proof (cases "r1 = Return ()")
    case False
    with c Inr cw l1 have "W' = W1" "this' = this" by (auto simp: commitH_def Let_def split: result.splits)
    with fin [OF I1] show ?thesis by simp
  next
    case True
    obtain r2 W2 where l2: "forEachH (map fst (entriesH (heap W1) w)) ?body2 W1 = (r2, W2)"
      by (cases "forEachH (map fst (entriesH (heap W1) w)) ?body2 W1")
    have I2: "?I W2" by (rule forEachH_inv [where I = ?I, OF I1 _ l2]) (rule step2)
    note s2 = fin [OF I2]
    show ?thesis
    proof (cases "r2 = Return ()")
      case False
      with c Inr cw l1 True l2 have "W' = W2" "this' = this"
        by (auto simp: commitH_def Let_def split: result.splits)
      with s2 show ?thesis by simp
    next
      case R2: True
      show ?thesis
      proof (cases "case sv of Some b \<Rightarrow> b | None \<Rightarrow> True")
        case False
        with c Inr cw l1 True l2 R2 have "resetH n this W2 = (r, this', W')"
          by (simp add: commitH_def Let_def)
        from rst [OF s2 this] show ?thesis .
      next
        case sv: True
        obtain q H3 b3 where sa: "hb_save (ds_backend this) (ds_id this) (ds_data this)
                              (heap W2) (storage W2) = (q, H3, b3)"
          by (cases "hb_save (ds_backend this) (ds_id this) (ds_data this) (heap W2) (storage W2)") auto
        with save [of "ds_id this" "ds_data this" "heap W2" "storage W2"] have h3: "H3 = heap W2" by simp
        let ?W3 = "\<lparr>heap = H3, storage = b3\<rparr>"
        from s2 h3 have s3: "separate (heap ?W3) D A" by simp
        show ?thesis
        proof (cases "q = Return ()")
          case True
          with c Inr cw l1 \<open>r1 = Return ()\<close> l2 R2 sv sa have "resetH n this ?W3 = (r, this', W')"
            by (simp add: commitH_def Let_def)
          from rst [OF s3 this] show ?thesis .
        next
          case False
          with c Inr cw l1 \<open>r1 = Return ()\<close> l2 R2 sv sa have "W' = ?W3" "this' = this"
            by (auto simp: commitH_def Let_def split: result.splits)
          with s3 show ?thesis by simp
        qed
      qed
    qed
  qed
qed

lemma newDataStoreH_separate:
  assumes "closed (heap W)" "validRef (heap W) d" "instanceOfObjectH d"
    and "newDataStoreH n i d B W = (Return (), this, W')"
  shows "ds_data this = d \<and> separate (heap W') d (ds_activeData this)"
proof -
  let ?H0 = "heap W @ [\<lparr>okind = KObject, oprops = []\<rparr>]"
  let ?t = "\<lparr>ds_id = i, ds_backend = B, ds_namespace = [], ds_data = d,
            ds_activeData = RPrim PUndefined, ds_pointer = RPrim PUndefined\<rparr>"
  from assms(3) have tr: "\<not> falsyH d" by (rule truthy_object)
  with assms(4) have r: "resetH n ?t (W\<lparr>heap := ?H0\<rparr>) = (Return (), this, W')"
    by (simp add: newDataStoreH_def constructWith_def loadDataWith_def resetPointerWith_def)
  then obtain m where n: "n = Suc m" by (cases n) auto
  from keeps_alloc [OF assms(1,2), of KObject] have k0: "keeps (heap W) ?H0 d" by simp
  then have c0: "closed ?H0" by (rule keeps_closed)
  from k0 assms(2) have v0: "validRef ?H0 d" by (rule keeps_valid)
  obtain q H1 where dc: "deepCopyH m d ?H0 = (q, H1)" by (cases "deepCopyH m d ?H0")
  with r n obtain t where q: "q = Return t" and th: "this = ?t\<lparr>ds_activeData := t\<rparr>"
    and w: "heap W' = H1"
    by (cases q) auto
  from deepCopyH_keeps [OF c0 v0 v0 dc] q
  have k: "keeps ?H0 H1 d" and tv: "validRef H1 t" and ta: "apart H1 d t" by simp_all
  from dc q have "instanceOfObjectH t" by (auto dest: deepCopyH_object)
  moreover from k have "closed H1" by (rule keeps_closed)
  moreover from k v0 have "validRef H1 d" by (rule keeps_valid)
  ultimately show ?thesis using assms(3) tv ta th w by (simp add: separate_def)
qed

subsection \<open>Handles of one namespace\<close>

lemma getPropH_put_elsewhere:
  assumes "putPropH H x key v = Inr H'" "(y, seg) \<noteq> (x, key)"
  shows "getPropH H' y seg = getPropH H y seg"
proof -
  from assms(1) obtain p where p: "x = RObj p" "p < length H"
    "H' = H[p := (H ! p)\<lparr>oprops := updH (oprops (H ! p)) key v\<rparr>]"
    by (rule putPropH_cases)
  show ?thesis
  proof (cases y)
    case (RPrim q)
    then show ?thesis by simp
  next
    case (RObj a)
    show ?thesis
    proof (cases "a = p")
      case True
      with RObj p assms(2) show ?thesis by (simp add: map_of_updH)
    next
      case False
      with RObj p show ?thesis by simp
    qed
  qed
qed

lemma getPointersH_loop_put_unread:
  assumes "putPropH H x key v = Inr H'" "(x, key) \<notin> set (readsH H (c, w) path)"
  shows "getPointersH_loop H' (c, w) path = getPointersH_loop H (c, w) path"
  using assms(2)
proof (induction path arbitrary: c w)
  case Nil
  then show ?case by simp
next
  case (Cons n ns)
  from Cons.prems have ne: "(c, n) \<noteq> (x, key)" "(w, n) \<noteq> (x, key)" by auto
  from getPropH_put_elsewhere [OF assms(1) ne(1)] getPropH_put_elsewhere [OF assms(1) ne(2)]
  have same: "getPropH H' c n = getPropH H c n" "getPropH H' w n = getPropH H w n" by simp_all
  show ?case
  proof (cases "getPropH H c n")
    case (Inl e)
    with same show ?thesis by simp
  next
    case c': (Inr c')
    show ?thesis
    proof (cases "getPropH H w n")
      case (Inl e)
      with same c' show ?thesis by simp
    next
      case (Inr w')
      with Cons.prems c' have "(x, key) \<notin> set (readsH H (c', w') ns)" by simp
      from Cons.IH [OF this] same c' Inr show ?thesis by simp
    qed
  qed
qed

lemma reads_names: "(y, k) \<in> set (readsH H (c, w) path) \<Longrightarrow> k \<in> set path"
  by (induction path arbitrary: c w) (auto split: sum.splits)

text \<open>
  What the handles of one namespace do share. Two handles \<open>a\<close> and \<open>b\<close> that \<^verbatim>\<open>ns(x)\<close>
  gives on one instance read the same value under every key in every state of the heap,
  and so does \<open>a\<close> after a write; after \<^verbatim>\<open>a.set(k, v)\<close> has returned, \<^verbatim>\<open>b.get(k)\<close>
  returns \<open>v\<close>. \<^verbatim>\<open>get\<close> refreshes the field \<^verbatim>\<open>pointer\<close> from the shared roots before it
  reads. The walk of \<open>b\<close> must not itself read the property that \<open>a\<close> wrote, which is
  the case whenever \<open>k\<close> is not a name of the path (\<open>reads_names\<close>).
\<close>

lemma refreshed_reads_agree:
  assumes ds: "\<not> falsyH (ds_data s)" and as: "\<not> falsyH (ds_activeData s)"
    and a: "nsH n s x W = (Return (), a, W1)"
    and b: "nsH n s x W1 = (Return (), b, W2)"
    and st: "setH n a k v W2 = (Return (), a', W3)"
    and unread: "(ds_pointer a', k) \<notin> set (readsH (heap W2) (ds_data s, ds_activeData s)
                                              (ds_namespace s @ [x]))"
  shows "fst (getH n b k W3) = Return v
         \<and> fst (getH n a key W') = fst (getH n b key W')
         \<and> fst (getH n a' key W') = fst (getH n b key W')"
proof -
  from nsH_fields [OF ds as a] have fa: "ds_namespace a = ds_namespace s @ [x]"
    "ds_data a = ds_data s" "ds_activeData a = ds_activeData s" by simp_all
  from nsH_fields [OF ds as b] have fb: "ds_namespace b = ds_namespace s @ [x]"
    "ds_data b = ds_data s" "ds_activeData b = ds_activeData s" by simp_all
  from fa fb have same: "getPointersH a H = getPointersH b H" for H
    by (intro getPointersH_same_fields) simp_all
  from as fa have ta: "\<not> falsyH (ds_activeData a)" by simp
  from as fb have tb: "\<not> falsyH (ds_activeData b)" by simp
  from st obtain c w H' where gp: "getPointersH a (heap W2) = Inr (c, w)"
    and put: "putPropH (heap W2) w k v = Inr H'" and W3: "W3 = W2\<lparr>heap := H'\<rparr>"
    and a': "a' = a\<lparr>ds_pointer := w\<rparr>"
    by (auto simp: setH_truthy [OF ta] split: sum.splits prod.splits)
  from a' fa have fa': "ds_namespace a' = ds_namespace s @ [x]"
    "ds_data a' = ds_data s" "ds_activeData a' = ds_activeData s" by simp_all
  from fa' fb have same': "getPointersH a' H = getPointersH b H" for H
    by (intro getPointersH_same_fields) simp_all
  from as fa' have ta': "\<not> falsyH (ds_activeData a')" by simp
  have 1: "fst (getH n a key W') = fst (getH n b key W')"
    by (simp add: getH_truthy [OF ta] getH_truthy [OF tb] same split: sum.splits prod.splits)
  have 2: "fst (getH n a' key W') = fst (getH n b key W')"
    by (simp add: getH_truthy [OF ta'] getH_truthy [OF tb] same' split: sum.splits prod.splits)
  from gp same have "getPointersH b (heap W2) = Inr (c, w)" by simp
  moreover from unread a' fb
  have "(w, k) \<notin> set (readsH (heap W2) (ds_data b, ds_activeData b) (ds_namespace b))" by simp
  ultimately have "getPointersH b H' = Inr (c, w)"
    using getPointersH_loop_put_unread [OF put, of "ds_data b" "ds_activeData b" "ds_namespace b"]
    by (simp add: getPointersH_def)
  with getPropH_put_same [OF put] W3 have "fst (getH n b k W3) = Return v"
    by (simp add: getH_truthy [OF tb])
  with 1 2 show ?thesis by simp
qed

lemmas hev =
  newDataStoreH_def constructWith_def loadDataWith_def resetPointerWith_def resetPointerH_def
  nsH_def nsWith_def setH_def getH_def onHeap_def assignH_def getPointersH_def
  callerWorld_def builtHeap_def referenceBackendH_def handleAt_def Let_def

text \<open>
  C5, evaluated. In the store of \<open>listWorld\<close>, \<^verbatim>\<open>a = store.ns('x')\<close> is taken while \<^verbatim>\<open>x\<close>
  is the array, then \<^verbatim>\<open>store.set('x', {k: 1})\<close> replaces it, and \<^verbatim>\<open>b = store.ns('x')\<close> is
  taken. The two handles have the same path and \<^verbatim>\<open>get('k')\<close> is 1 through both, but
  \<^verbatim>\<open>a.isArray\<close> is \<^verbatim>\<open>true\<close> and \<^verbatim>\<open>b.isArray\<close> is \<^verbatim>\<open>false\<close>: the getter reads the
  field \<^verbatim>\<open>pointer\<close> of the handle, which still is the array for \<open>a\<close>. \<^verbatim>\<open>map\<close> reads the
  getter before \<^verbatim>\<open>keys()\<close> refreshes the field, so \<^verbatim>\<open>a.map(v => v)\<close> returns an array
  with the property \<^verbatim>\<open>k\<close> and \<^verbatim>\<open>b.map(v => v)\<close> the object \<^verbatim>\<open>{k: 1}\<close>.
\<close>

theorem stale_pointer_decides_isArray:
  "newDataStoreH 3 ''id'' (RObj 0) referenceBackendH listWorld
     = (Return (), handleAt [] (RPrim PUndefined),
        \<lparr>heap = [\<lparr>okind = KObject, oprops = [(''x'', RObj 1)]\<rparr>,
                 \<lparr>okind = KArray, oprops = [(''0'', RPrim (PNum 1))]\<rparr>,
                 \<lparr>okind = KObject, oprops = []\<rparr>,
                 \<lparr>okind = KObject, oprops = [(''x'', RObj 4)]\<rparr>,
                 \<lparr>okind = KArray, oprops = [(''0'', RPrim (PNum 1))]\<rparr>],
         storage = RPrim PUndefined\<rparr>)
   \<and> nsH 3 (handleAt [] (RPrim PUndefined)) ''x''
        \<lparr>heap = [\<lparr>okind = KObject, oprops = [(''x'', RObj 1)]\<rparr>,
                 \<lparr>okind = KArray, oprops = [(''0'', RPrim (PNum 1))]\<rparr>,
                 \<lparr>okind = KObject, oprops = []\<rparr>,
                 \<lparr>okind = KObject, oprops = [(''x'', RObj 4)]\<rparr>,
                 \<lparr>okind = KArray, oprops = [(''0'', RPrim (PNum 1))]\<rparr>],
         storage = RPrim PUndefined\<rparr>
     = (Return (), handleAt [''x''] (RObj 4),
        \<lparr>heap = [\<lparr>okind = KObject, oprops = [(''x'', RObj 1)]\<rparr>,
                 \<lparr>okind = KArray, oprops = [(''0'', RPrim (PNum 1))]\<rparr>,
                 \<lparr>okind = KObject, oprops = []\<rparr>,
                 \<lparr>okind = KObject, oprops = [(''x'', RObj 4)]\<rparr>,
                 \<lparr>okind = KArray, oprops = [(''0'', RPrim (PNum 1))]\<rparr>,
                 \<lparr>okind = KObject, oprops = []\<rparr>],
         storage = RPrim PUndefined\<rparr>)
   \<and> setH 3 (handleAt [] (RPrim PUndefined)) ''x'' (RObj 6)
        \<lparr>heap = [\<lparr>okind = KObject, oprops = [(''x'', RObj 1)]\<rparr>,
                 \<lparr>okind = KArray, oprops = [(''0'', RPrim (PNum 1))]\<rparr>,
                 \<lparr>okind = KObject, oprops = []\<rparr>,
                 \<lparr>okind = KObject, oprops = [(''x'', RObj 4)]\<rparr>,
                 \<lparr>okind = KArray, oprops = [(''0'', RPrim (PNum 1))]\<rparr>,
                 \<lparr>okind = KObject, oprops = []\<rparr>,
                 \<lparr>okind = KObject, oprops = [(''k'', RPrim (PNum 1))]\<rparr>],
         storage = RPrim PUndefined\<rparr>
     = (Return (), handleAt [] (RObj 3),
        \<lparr>heap = [\<lparr>okind = KObject, oprops = [(''x'', RObj 1)]\<rparr>,
                 \<lparr>okind = KArray, oprops = [(''0'', RPrim (PNum 1))]\<rparr>,
                 \<lparr>okind = KObject, oprops = []\<rparr>,
                 \<lparr>okind = KObject, oprops = [(''x'', RObj 6)]\<rparr>,
                 \<lparr>okind = KArray, oprops = [(''0'', RPrim (PNum 1))]\<rparr>,
                 \<lparr>okind = KObject, oprops = []\<rparr>,
                 \<lparr>okind = KObject, oprops = [(''k'', RPrim (PNum 1))]\<rparr>],
         storage = RPrim PUndefined\<rparr>)
   \<and> nsH 3 (handleAt [] (RObj 3)) ''x''
        \<lparr>heap = [\<lparr>okind = KObject, oprops = [(''x'', RObj 1)]\<rparr>,
                 \<lparr>okind = KArray, oprops = [(''0'', RPrim (PNum 1))]\<rparr>,
                 \<lparr>okind = KObject, oprops = []\<rparr>,
                 \<lparr>okind = KObject, oprops = [(''x'', RObj 6)]\<rparr>,
                 \<lparr>okind = KArray, oprops = [(''0'', RPrim (PNum 1))]\<rparr>,
                 \<lparr>okind = KObject, oprops = []\<rparr>,
                 \<lparr>okind = KObject, oprops = [(''k'', RPrim (PNum 1))]\<rparr>],
         storage = RPrim PUndefined\<rparr>
     = (Return (), handleAt [''x''] (RObj 6), \<lparr>heap = staleHeap, storage = RPrim PUndefined\<rparr>)
   \<and> ds_namespace (handleAt [''x''] (RObj 4)) = ds_namespace (handleAt [''x''] (RObj 6))
   \<and> fst (getH 3 (handleAt [''x''] (RObj 4)) ''k'' \<lparr>heap = staleHeap, storage = RPrim PUndefined\<rparr>)
       = Return (RPrim (PNum 1))
   \<and> fst (getH 3 (handleAt [''x''] (RObj 6)) ''k'' \<lparr>heap = staleHeap, storage = RPrim PUndefined\<rparr>)
       = Return (RPrim (PNum 1))
   \<and> isArrayOfH (handleAt [''x''] (RObj 4)) \<lparr>heap = staleHeap, storage = RPrim PUndefined\<rparr>
   \<and> \<not> isArrayOfH (handleAt [''x''] (RObj 6)) \<lparr>heap = staleHeap, storage = RPrim PUndefined\<rparr>
   \<and> mapH 3 (handleAt [''x''] (RObj 4)) keepValue \<lparr>heap = staleHeap, storage = RPrim PUndefined\<rparr>
     = (Return (RObj 8), handleAt [''x''] (RObj 6),
        \<lparr>heap = staleHeap @ [\<lparr>okind = KArray, oprops = [(''k'', RPrim (PNum 1))]\<rparr>],
         storage = RPrim PUndefined\<rparr>)
   \<and> mapH 3 (handleAt [''x''] (RObj 6)) keepValue \<lparr>heap = staleHeap, storage = RPrim PUndefined\<rparr>
     = (Return (RObj 8), handleAt [''x''] (RObj 6),
        \<lparr>heap = staleHeap @ [\<lparr>okind = KObject, oprops = [(''k'', RPrim (PNum 1))]\<rparr>],
         storage = RPrim PUndefined\<rparr>)"
proof -
  have k: "\<not> isArrayIndex ''k''" by (simp add: isArrayIndex_def digitChars_def)
  show ?thesis
    by (simp add: hev listWorld_def staleHeap_def keepValue_def isArrayOfH_def mapH_def keysH_def
        ownKeys_def indexKeys_def k objectPrototype_def eval_nat_numeral)
qed

subsection \<open>The committed tree and the working tree\<close>

lemma committedKept_intro:
  assumes "separate (heap W) (ds_data this) (ds_activeData this)"
    and "keeps (heap W) (heap W') (ds_data this)"
    and "ds_data this' = ds_data this" "ds_activeData this' = ds_activeData this"
  shows "committedKept this W (r, this', W')"
  using assms separate_keeps [OF assms(1,2)] by (simp add: committedKept_def staysSeparate_def)

text \<open>
  C2: a counterexample. The caller of \<open>callerWorld\<close> builds a store on its object \<^verbatim>\<open>d\<close>,
  which becomes the committed tree itself, and calls \<^verbatim>\<open>store.set('b', d.x)\<close>: the node at
  address 1 is now the committed \<^verbatim>\<open>x\<close> and the working \<^verbatim>\<open>b\<close>. Then
  \<^verbatim>\<open>store.ns('b').set('n', 5)\<close> changes \<^verbatim>\<open>n\<close> in the committed tree from 1 to 5.
\<close>

theorem set_keeps_reference_counterexample:
  "newDataStoreH 3 ''id'' (RObj 0) referenceBackendH callerWorld
     = (Return (), handleAt [] (RPrim PUndefined), \<lparr>heap = builtHeap, storage = RPrim PUndefined\<rparr>)
   \<and> getPropH builtHeap (RObj 0) ''x'' = Inr (RObj 1)
   \<and> getPropH builtHeap (RObj 1) ''n'' = Inr (RPrim (PNum 1))
   \<and> setH 3 (handleAt [] (RPrim PUndefined)) ''b'' (RObj 1)
        \<lparr>heap = builtHeap, storage = RPrim PUndefined\<rparr>
     = (Return (), handleAt [] (RObj 3),
        \<lparr>heap = [\<lparr>okind = KObject, oprops = [(''x'', RObj 1)]\<rparr>,
                 \<lparr>okind = KObject, oprops = [(''n'', RPrim (PNum 1))]\<rparr>,
                 \<lparr>okind = KObject, oprops = []\<rparr>,
                 \<lparr>okind = KObject, oprops = [(''x'', RObj 4), (''b'', RObj 1)]\<rparr>,
                 \<lparr>okind = KObject, oprops = [(''n'', RPrim (PNum 1))]\<rparr>],
         storage = RPrim PUndefined\<rparr>)
   \<and> nsH 3 (handleAt [] (RObj 3)) ''b''
        \<lparr>heap = [\<lparr>okind = KObject, oprops = [(''x'', RObj 1)]\<rparr>,
                 \<lparr>okind = KObject, oprops = [(''n'', RPrim (PNum 1))]\<rparr>,
                 \<lparr>okind = KObject, oprops = []\<rparr>,
                 \<lparr>okind = KObject, oprops = [(''x'', RObj 4), (''b'', RObj 1)]\<rparr>,
                 \<lparr>okind = KObject, oprops = [(''n'', RPrim (PNum 1))]\<rparr>],
         storage = RPrim PUndefined\<rparr>
     = (Return (), handleAt [''b''] (RObj 1),
        \<lparr>heap = [\<lparr>okind = KObject, oprops = [(''x'', RObj 1)]\<rparr>,
                 \<lparr>okind = KObject, oprops = [(''n'', RPrim (PNum 1))]\<rparr>,
                 \<lparr>okind = KObject, oprops = []\<rparr>,
                 \<lparr>okind = KObject, oprops = [(''x'', RObj 4), (''b'', RObj 1)]\<rparr>,
                 \<lparr>okind = KObject, oprops = [(''n'', RPrim (PNum 1))]\<rparr>,
                 \<lparr>okind = KObject, oprops = []\<rparr>],
         storage = RPrim PUndefined\<rparr>)
   \<and> setH 3 (handleAt [''b''] (RObj 1)) ''n'' (RPrim (PNum 5))
        \<lparr>heap = [\<lparr>okind = KObject, oprops = [(''x'', RObj 1)]\<rparr>,
                 \<lparr>okind = KObject, oprops = [(''n'', RPrim (PNum 1))]\<rparr>,
                 \<lparr>okind = KObject, oprops = []\<rparr>,
                 \<lparr>okind = KObject, oprops = [(''x'', RObj 4), (''b'', RObj 1)]\<rparr>,
                 \<lparr>okind = KObject, oprops = [(''n'', RPrim (PNum 1))]\<rparr>,
                 \<lparr>okind = KObject, oprops = []\<rparr>],
         storage = RPrim PUndefined\<rparr>
     = (Return (), handleAt [''b''] (RObj 1),
        \<lparr>heap = [\<lparr>okind = KObject, oprops = [(''x'', RObj 1)]\<rparr>,
                 \<lparr>okind = KObject, oprops = [(''n'', RPrim (PNum 5))]\<rparr>,
                 \<lparr>okind = KObject, oprops = []\<rparr>,
                 \<lparr>okind = KObject, oprops = [(''x'', RObj 4), (''b'', RObj 1)]\<rparr>,
                 \<lparr>okind = KObject, oprops = [(''n'', RPrim (PNum 1))]\<rparr>,
                 \<lparr>okind = KObject, oprops = []\<rparr>],
         storage = RPrim PUndefined\<rparr>)"
  by (simp add: hev objectPrototype_def eval_nat_numeral)

text \<open>
  C2, amended. Let the committed root and the working root of an instance be separate: no
  object belongs to both trees. Then every call of \<^verbatim>\<open>get\<close>, \<^verbatim>\<open>has\<close>, \<^verbatim>\<open>keys\<close>, \<^verbatim>\<open>set\<close>,
  \<^verbatim>\<open>unset\<close>, \<^verbatim>\<open>map\<close> (in place or not), \<^verbatim>\<open>filter\<close>, \<^verbatim>\<open>ns\<close> and \<^verbatim>\<open>reset\<close>, whether it returns
  or throws, leaves every object of the committed tree as it was and the two trees
  separate, and \<^verbatim>\<open>commit\<close> leaves the two trees separate; so the same holds after any
  number of calls through any handles of the store. This needs that the value given to
  \<^verbatim>\<open>set\<close> reaches no object of the committed tree, that a callback of \<^verbatim>\<open>map\<close> returns its
  argument or such a value, and that \<^verbatim>\<open>save\<close> of the backend leaves the heap alone. The
  constructor, given an object of a closed heap, makes the two trees separate.
\<close>

theorem committed_tree_kept_apart:
  assumes sep: "separate (heap W) (ds_data this) (ds_activeData this)"
    and v: "validRef (heap W) v" "apart (heap W) (ds_data this) v"
    and cb: "\<forall>x key. cb x key = x
               \<or> validRef (heap W) (cb x key) \<and> apart (heap W) (ds_data this) (cb x key)"
    and save: "\<forall>i x H b. fst (snd (hb_save (ds_backend this) i x H b)) = H"
  shows "committedKept this W (getH n this key W)
         \<and> committedKept this W (hasH n this key W)
         \<and> committedKept this W (keysH n this W)
         \<and> committedKept this W (setH n this key v W)
         \<and> committedKept this W (unsetH n this key W)
         \<and> committedKept this W (mapInPlaceH n this cb W)
         \<and> committedKept this W (mapH n this cb W)
         \<and> committedKept this W (filterH n this cb W)
         \<and> committedKept this W (nsH n this key W)
         \<and> committedKept this W (resetH n this W)
         \<and> staysSeparate this (commitH n this sv W)
         \<and> (closed (heap W0) \<and> validRef (heap W0) d \<and> instanceOfObjectH d
              \<and> newDataStoreH n i d B W0 = (Return (), this1, W1)
            \<longrightarrow> ds_data this1 = d \<and> separate (heap W1) d (ds_activeData this1))"
proof -
  let ?D = "ds_data this" and ?A = "ds_activeData this"
  from sep have cl: "closed (heap W)" by (simp add: separate_def)
  from cb have cb': "\<And>x key. cb x key = x
      \<or> validRef (heap W) (cb x key) \<and> apart (heap W) ?D (cb x key)" by simp
  from save have save': "\<And>i x H b. fst (snd (hb_save (ds_backend this) i x H b)) = H" by simp
  have 1: "committedKept this W (getH n this key W)"
  proof -
    obtain r t W' where o: "getH n this key W = (r, t, W')" by (cases "getH n this key W") auto
    from getH_same [OF sep refl refl o] cl have "keeps (heap W) (heap W') ?D" "ds_data t = ?D"
      "ds_activeData t = ?A" by (simp_all add: keeps_refl)
    with o show ?thesis by (simp add: committedKept_intro [OF sep])
  qed
  have 2: "committedKept this W (hasH n this key W)"
  proof -
    obtain r t W' where o: "hasH n this key W = (r, t, W')" by (cases "hasH n this key W") auto
    from hasH_same [OF sep refl refl o] cl have "keeps (heap W) (heap W') ?D" "ds_data t = ?D"
      "ds_activeData t = ?A" by (simp_all add: keeps_refl)
    with o show ?thesis by (simp add: committedKept_intro [OF sep])
  qed
  have 3: "committedKept this W (keysH n this W)"
  proof -
    obtain r t W' where o: "keysH n this W = (r, t, W')" by (cases "keysH n this W") auto
    from keysH_same [OF sep refl refl o] cl have "keeps (heap W) (heap W') ?D" "ds_data t = ?D"
      "ds_activeData t = ?A" by (simp_all add: keeps_refl)
    with o show ?thesis by (simp add: committedKept_intro [OF sep])
  qed
  have 4: "committedKept this W (setH n this key v W)"
  proof -
    obtain r t W' where o: "setH n this key v W = (r, t, W')" by (cases "setH n this key v W") auto
    from setH_keeps [OF sep refl refl v o] have "keeps (heap W) (heap W') ?D" "ds_data t = ?D"
      "ds_activeData t = ?A" by simp_all
    with o show ?thesis by (simp add: committedKept_intro [OF sep])
  qed
  have 5: "committedKept this W (unsetH n this key W)"
  proof -
    obtain r t W' where o: "unsetH n this key W = (r, t, W')" by (cases "unsetH n this key W") auto
    from unsetH_keeps [OF sep refl refl o] have "keeps (heap W) (heap W') ?D" "ds_data t = ?D"
      "ds_activeData t = ?A" by simp_all
    with o show ?thesis by (simp add: committedKept_intro [OF sep])
  qed
  have 6: "committedKept this W (mapInPlaceH n this cb W)"
  proof -
    obtain r t W' where o: "mapInPlaceH n this cb W = (r, t, W')"
      by (cases "mapInPlaceH n this cb W") auto
    from mapInPlaceH_keeps [OF sep refl refl cb' o] have "keeps (heap W) (heap W') ?D"
      "ds_data t = ?D" "ds_activeData t = ?A" by simp_all
    with o show ?thesis by (simp add: committedKept_intro [OF sep])
  qed
  have 7: "committedKept this W (mapH n this cb W)"
  proof -
    obtain r t W' where o: "mapH n this cb W = (r, t, W')" by (cases "mapH n this cb W") auto
    from mapH_keeps [OF sep refl refl cb' o] have "keeps (heap W) (heap W') ?D"
      "ds_data t = ?D" "ds_activeData t = ?A" by simp_all
    with o show ?thesis by (simp add: committedKept_intro [OF sep])
  qed
  have 8: "committedKept this W (filterH n this cb W)"
  proof -
    obtain r t W' where o: "filterH n this cb W = (r, t, W')" by (cases "filterH n this cb W") auto
    from filterH_keeps [OF sep refl refl o] have "keeps (heap W) (heap W') ?D"
      "ds_data t = ?D" "ds_activeData t = ?A" by simp_all
    with o show ?thesis by (simp add: committedKept_intro [OF sep])
  qed
  have 9: "committedKept this W (nsH n this key W)"
  proof -
    obtain r t W' where o: "nsH n this key W = (r, t, W')" by (cases "nsH n this key W") auto
    from nsH_keeps [OF sep refl refl o] have "keeps (heap W) (heap W') ?D"
      "ds_data t = ?D" "ds_activeData t = ?A" by simp_all
    with o show ?thesis by (simp add: committedKept_intro [OF sep])
  qed
  have 10: "committedKept this W (resetH n this W)"
  proof -
    obtain r t W' where o: "resetH n this W = (r, t, W')" by (cases "resetH n this W") auto
    from resetH_keeps [OF sep refl refl o] have "keeps (heap W) (heap W') ?D"
      "ds_data t = ?D" "ds_activeData t = ?A" by simp_all
    with o show ?thesis by (simp add: committedKept_intro [OF sep])
  qed
  have 11: "staysSeparate this (commitH n this sv W)"
  proof -
    obtain r t W' where o: "commitH n this sv W = (r, t, W')" by (cases "commitH n this sv W") auto
    from commitH_separate [OF sep refl refl save' o] o show ?thesis by (simp add: staysSeparate_def)
  qed
  have 12: "closed (heap W0) \<and> validRef (heap W0) d \<and> instanceOfObjectH d
              \<and> newDataStoreH n i d B W0 = (Return (), this1, W1)
            \<longrightarrow> ds_data this1 = d \<and> separate (heap W1) d (ds_activeData this1)"
    using newDataStoreH_separate [of W0 d n i B this1 W1] by blast
  from 1 2 3 4 5 6 7 8 9 10 11 12 show ?thesis by blast
qed

lemma reach_within:
  assumes "\<And>a. v = RObj a \<Longrightarrow> a \<in> S"
    and "\<And>a key b. a \<in> S \<Longrightarrow> a < length H \<Longrightarrow> (key, RObj b) \<in> set (oprops (H ! a)) \<Longrightarrow> b \<in> S"
  shows "reach H v \<subseteq> S"
proof
  fix x assume "x \<in> reach H v"
  then show "x \<in> S" by (induction rule: reach.induct) (auto intro: assms)
qed

lemma closed_callerWorld: "closed (heap callerWorld)"
  by (auto simp: closed_def callerWorld_def less_Suc_eq)

theorem committed_tree_kept_apart_witness:
  "newDataStoreH 3 ''id'' (RObj 0) referenceBackendH callerWorld
     = (Return (), handleAt [] (RPrim PUndefined), \<lparr>heap = builtHeap, storage = RPrim PUndefined\<rparr>)
   \<and> separate builtHeap (RObj 0) (RObj 3)
   \<and> apart builtHeap (RObj 0) (RObj 2)
   \<and> committedKept (handleAt [] (RPrim PUndefined)) \<lparr>heap = builtHeap, storage = RPrim PUndefined\<rparr>
        (setH 3 (handleAt [] (RPrim PUndefined)) ''b'' (RObj 2)
           \<lparr>heap = builtHeap, storage = RPrim PUndefined\<rparr>)
   \<and> committedKept (handleAt [] (RPrim PUndefined)) \<lparr>heap = builtHeap, storage = RPrim PUndefined\<rparr>
        (mapInPlaceH 3 (handleAt [] (RPrim PUndefined)) (\<lambda>x key. x)
           \<lparr>heap = builtHeap, storage = RPrim PUndefined\<rparr>)
   \<and> staysSeparate (handleAt [] (RPrim PUndefined))
        (commitH 3 (handleAt [] (RPrim PUndefined)) None
           \<lparr>heap = builtHeap, storage = RPrim PUndefined\<rparr>)"
proof -
  let ?W = "\<lparr>heap = builtHeap, storage = RPrim PUndefined\<rparr>"
  let ?s = "handleAt [] (RPrim PUndefined)"
  have n: "newDataStoreH 3 ''id'' (RObj 0) referenceBackendH callerWorld = (Return (), ?s, ?W)"
    by (simp add: hev objectPrototype_def eval_nat_numeral)
  have c: "closed (heap callerWorld) \<and> validRef (heap callerWorld) (RObj 0)
           \<and> instanceOfObjectH (RObj 0)"
    using closed_callerWorld by (simp add: callerWorld_def)
  with newDataStoreH_separate [OF _ _ _ n]
  have sep: "separate (heap ?W) (ds_data ?s) (ds_activeData ?s)" by (simp add: handleAt_def)
  have "reach builtHeap (RObj 0) \<subseteq> {0, 1}"
    by (rule reach_within) (auto simp: builtHeap_def less_Suc_eq)
  moreover have "reach builtHeap (RObj 2) \<subseteq> {2}"
    by (rule reach_within) (auto simp: builtHeap_def)
  ultimately have ap: "apart (heap ?W) (ds_data ?s) (RObj 2)"
    by (auto simp: apart_def handleAt_def)
  have v: "validRef (heap ?W) (RObj 2)" by (simp add: builtHeap_def)
  have cb: "\<forall>x key. (\<lambda>x key. x) x key = x
              \<or> validRef (heap ?W) ((\<lambda>x key. x) x key)
                \<and> apart (heap ?W) (ds_data ?s) ((\<lambda>x key. x) x key)"
    by simp
  have sv: "\<forall>i x H b. fst (snd (hb_save (ds_backend ?s) i x H b)) = H"
    by (simp add: handleAt_def referenceBackendH_def)
  from committed_tree_kept_apart [OF sep v ap cb sv, of 3 "''b''" None callerWorld "RObj 0"
      "''id''" referenceBackendH ?s ?W] n c sep ap
  show ?thesis by (simp add: handleAt_def)
qed

end
